theory Spec2Isabelle
  imports Complex_Main
begin

section \<open>Data model\<close>

text \<open>
  The package solves linear programs in standard maximisation form with the tableau
  method. Go's \<^verbatim>\<open>float64\<close> is idealised as \<^typ>\<open>real\<close> (exact arithmetic), Go's
  \<^verbatim>\<open>int\<close> as \<^typ>\<open>int\<close>. A slice is modelled twice: as a list passed by value,
  and, for \<^verbatim>\<open>NewTableau\<close>, which appends to the slices of its caller, as a window
  on a backing array of a heap (section \<open>Construction on the caller's backing arrays\<close>).
  The two models of \<^verbatim>\<open>NewTableau\<close> agree whenever the appends to the constraints
  allocate (lemma \<open>NewTableauHeap_allocating\<close>), as they do for slice literals, whose
  capacity is their length.

  Errors are values. The first three constructors are the errors the package returns, the
  others are the panics of the matrix library and of the Go runtime that the package can
  run into.
\<close>

datatype error =
    ErrCoefficientLength  \<comment> \<open>\<^verbatim>\<open>errors.New("coefficient vectors must be of equal length")\<close>\<close>
  | ERR_UNBOUNDED         \<comment> \<open>\<^verbatim>\<open>"LP is unbounded"\<close>\<close>
  | ERR_UNSOLVED          \<comment> \<open>\<^verbatim>\<open>"LP is unsolved"\<close>\<close>
  | ErrRowAccess          \<comment> \<open>panic of \<^verbatim>\<open>mat\<close>: row index out of range\<close>
  | ErrColAccess          \<comment> \<open>panic of \<^verbatim>\<open>mat\<close>: column index out of range\<close>
  | ErrVectorAccess       \<comment> \<open>panic of \<^verbatim>\<open>mat\<close>: vector index out of range\<close>
  | ErrRowLength          \<comment> \<open>panic of \<^verbatim>\<open>mat\<close>: row length mismatch\<close>
  | ErrShape              \<comment> \<open>panic of \<^verbatim>\<open>mat\<close>: dimension mismatch\<close>
  | ErrZeroLength         \<comment> \<open>panic of \<^verbatim>\<open>mat\<close>: zero length in matrix dimension\<close>
  | ErrNegativeDimension  \<comment> \<open>panic of \<^verbatim>\<open>mat\<close>: negative dimension\<close>
  | ErrIndexOutOfRange    \<comment> \<open>panic of the Go runtime: slice index out of range\<close>
  | ErrMakeSlice          \<comment> \<open>panic of the Go runtime: \<^verbatim>\<open>makeslice: len out of range\<close>\<close>
  | ErrNonFinite          \<comment> \<open>a division by zero: the \<^verbatim>\<open>float64\<close> result is infinite or
                              not a number and has no counterpart in exact arithmetic\<close>

record Constraint =
  Coefficients :: "real list"
  RightHandSide :: real

type_synonym Objective = "real list"

text \<open>
  \<^verbatim>\<open>Tableau\<close> embeds \<^verbatim>\<open>*mat.Dense\<close>: a row-major slice of \<open>Rows * Cols\<close> entries
  (the stride of a matrix made by \<^verbatim>\<open>mat.NewDense\<close> is its column count).
\<close>

record Tableau =
  Rows :: int
  Cols :: int
  Data :: "real list"

section \<open>The matrix library\<close>

text \<open>
  The methods of \<^verbatim>\<open>mat.Dense\<close> that the package calls, with their documented
  panics. \<^verbatim>\<open>RawRowView\<close> and \<^verbatim>\<open>RowView\<close> return views into the matrix; every use
  in the package reads the view before the row is written again, or reads a row that is
  not written at all, so a view is modelled by the row's contents at the time of reading.
\<close>

definition NewDense :: "int \<Rightarrow> int \<Rightarrow> real list \<Rightarrow> error + Tableau" where
  "NewDense r c data =
     (if r \<le> 0 \<or> c \<le> 0 then
        (if r = 0 \<or> c = 0 then Inl ErrZeroLength else Inl ErrNegativeDimension)
      else if r * c \<noteq> int (length data) then Inl ErrShape
      else Inr \<lparr>Rows = r, Cols = c, Data = data\<rparr>)"

definition Dims :: "Tableau \<Rightarrow> int \<times> int" where
  "Dims t = (Rows t, Cols t)"

definition At :: "Tableau \<Rightarrow> int \<Rightarrow> int \<Rightarrow> error + real" where
  "At t i j =
     (if i < 0 \<or> Rows t \<le> i then Inl ErrRowAccess
      else if j < 0 \<or> Cols t \<le> j then Inl ErrColAccess
      else Inr (Data t ! nat (i * Cols t + j)))"

definition RawRowView :: "Tableau \<Rightarrow> int \<Rightarrow> error + real list" where
  "RawRowView t i =
     (if i < 0 \<or> Rows t \<le> i then Inl ErrRowAccess
      else Inr (take (nat (Cols t)) (drop (nat (i * Cols t)) (Data t))))"

definition RowView :: "Tableau \<Rightarrow> int \<Rightarrow> error + real list" where
  "RowView t i = RawRowView t i"

definition AtVec :: "real list \<Rightarrow> int \<Rightarrow> error + real" where
  "AtVec vec i =
     (if i < 0 \<or> int (length vec) \<le> i then Inl ErrVectorAccess else Inr (vec ! nat i))"

definition SetRow :: "Tableau \<Rightarrow> int \<Rightarrow> real list \<Rightarrow> error + Tableau" where
  "SetRow t i src =
     (if i < 0 \<or> Rows t \<le> i then Inl ErrRowAccess
      else if int (length src) \<noteq> Cols t then Inl ErrRowLength
      else Inr (t\<lparr>Data := take (nat (i * Cols t)) (Data t) @ src
                              @ drop (nat ((i + 1) * Cols t)) (Data t)\<rparr>))"

section \<open>Slice helpers\<close>

definition zipWithFloats ::
    "(real \<Rightarrow> real \<Rightarrow> real) \<Rightarrow> real list \<Rightarrow> real list \<Rightarrow> error + real list" where
  "zipWithFloats fn sl1 sl2 =
     (if length sl2 < length sl1 then Inl ErrIndexOutOfRange
      else Inr (map (\<lambda>(u, v). fn u v) (zip sl1 sl2)))"

definition mapFloats :: "(real \<Rightarrow> real) \<Rightarrow> real list \<Rightarrow> real list" where
  "mapFloats fn sl = map fn sl"

definition scaleSlice :: "real list \<Rightarrow> real \<Rightarrow> real list" where
  "scaleSlice sl s = mapFloats (\<lambda>v. v * s) sl"

definition addSlices :: "real list \<Rightarrow> real list \<Rightarrow> error + real list" where
  "addSlices sl1 sl2 = zipWithFloats (\<lambda>u v. u + v) sl1 sl2"

section \<open>Construction\<close>

text \<open>
  The loop of \<^verbatim>\<open>NewTableau\<close>: \<open>m\<close> is \<^verbatim>\<open>len(cs)\<close>, \<open>i\<close> the index of the
  constraint at the head of the list, \<open>vecs\<close> the entries collected so far.
\<close>

fun NewTableauRows ::
    "nat \<Rightarrow> Objective \<Rightarrow> nat \<Rightarrow> Constraint list \<Rightarrow> real list \<Rightarrow> error + real list" where
  "NewTableauRows m ob i [] vecs = Inr vecs"
| "NewTableauRows m ob i (c # cs) vecs =
     (if length (Coefficients c) \<noteq> length ob then Inl ErrCoefficientLength
      else
        let slack = (replicate m 0)[i := 1]
        in NewTableauRows m ob (i + 1) cs
             (vecs @ (Coefficients c @ (slack @ [RightHandSide c]))))"

definition NewTableau :: "Constraint list \<Rightarrow> Objective \<Rightarrow> error + Tableau" where
  "NewTableau cs ob =
     (case NewTableauRows (length cs) ob 0 cs [] of
        Inl e \<Rightarrow> Inl e
      | Inr vecs \<Rightarrow>
          NewDense (int (length cs) + 1) (int (length ob) + int (length cs) + 1)
            (vecs @ (ob @ replicate (length cs + 1) 0)))"

section \<open>Construction on the caller's backing arrays\<close>

text \<open>
  A Go slice is a window on a backing array: the array, the offset of the first element,
  the length and the capacity (the number of elements from the offset to the end of what
  the slice may use). The heap maps an array to its contents.
\<close>

record Slice =
  Arr :: nat
  Off :: nat
  Len :: nat
  Cap :: nat

type_synonym Heap = "nat \<Rightarrow> real list"

text \<open>A \<^verbatim>\<open>Constraint\<close> whose \<^verbatim>\<open>Coefficients\<close> is a slice of the heap.\<close>

record ConstraintRef =
  CoefficientsRef :: Slice
  RightHandSideRef :: real

text \<open>The elements of a slice, and the invariant of the Go runtime on a slice.\<close>

definition sliceElems :: "Heap \<Rightarrow> Slice \<Rightarrow> real list" where
  "sliceElems h s = take (Len s) (drop (Off s) (h (Arr s)))"

definition sliceOk :: "Heap \<Rightarrow> Slice \<Rightarrow> bool" where
  "sliceOk h s \<longleftrightarrow> Len s \<le> Cap s \<and> Off s + Cap s \<le> length (h (Arr s))"

text \<open>
  \<^verbatim>\<open>append(s, xs...)\<close> for a freshly allocated \<open>xs\<close>: when the capacity of \<open>s\<close>
  has room for \<open>xs\<close>, the elements are written into the backing array of \<open>s\<close>, right
  after its last element; otherwise a new array is allocated and the heap of the caller
  is left alone. The second component is the contents of the slice returned.
\<close>

definition appendSlice :: "Heap \<Rightarrow> Slice \<Rightarrow> real list \<Rightarrow> Heap \<times> real list" where
  "appendSlice h s xs =
     (if Len s + length xs \<le> Cap s then
        (h(Arr s := take (Off s + Len s) (h (Arr s)) @ xs
                     @ drop (Off s + Len s + length xs) (h (Arr s))),
         sliceElems h s @ xs)
      else (h, sliceElems h s @ xs))"

text \<open>
  The loop of \<^verbatim>\<open>NewTableau\<close> and \<^verbatim>\<open>NewTableau\<close> itself on the heap. The inner
  \<^verbatim>\<open>append(slack, c.RightHandSide)\<close> allocates (\<^verbatim>\<open>slack\<close> is made with capacity
  \<^verbatim>\<open>len(cs)\<close>), and \<^verbatim>\<open>vecs\<close> is private to the call; the outer
  \<^verbatim>\<open>append(c.Coefficients, ...)\<close> and \<^verbatim>\<open>append(o, ...)\<close> go through
  \<open>appendSlice\<close>.
\<close>

fun NewTableauRowsHeap ::
    "Heap \<Rightarrow> nat \<Rightarrow> Slice \<Rightarrow> nat \<Rightarrow> ConstraintRef list \<Rightarrow> real list
     \<Rightarrow> Heap \<times> (error + real list)" where
  "NewTableauRowsHeap h m ob i [] vecs = (h, Inr vecs)"
| "NewTableauRowsHeap h m ob i (c # cs) vecs =
     (if Len (CoefficientsRef c) \<noteq> Len ob then (h, Inl ErrCoefficientLength)
      else
        let slack = (replicate m 0)[i := 1]
        in (case appendSlice h (CoefficientsRef c) (slack @ [RightHandSideRef c]) of
              (h', row) \<Rightarrow> NewTableauRowsHeap h' m ob (i + 1) cs (vecs @ row)))"

definition NewTableauHeap ::
    "Heap \<Rightarrow> ConstraintRef list \<Rightarrow> Slice \<Rightarrow> Heap \<times> (error + Tableau)" where
  "NewTableauHeap h cs ob =
     (case NewTableauRowsHeap h (length cs) ob 0 cs [] of
        (h1, Inl e) \<Rightarrow> (h1, Inl e)
      | (h1, Inr vecs) \<Rightarrow>
          (case appendSlice h1 ob (replicate (length cs + 1) 0) of
             (h2, lastRow) \<Rightarrow>
               (h2, NewDense (int (length cs) + 1) (int (Len ob) + int (length cs) + 1)
                      (vecs @ lastRow))))"

section \<open>Predicates and pivot selection\<close>

fun isSolvedLoop :: "real list \<Rightarrow> bool" where
  "isSolvedLoop [] = True"
| "isSolvedLoop (v # vs) = (if v < 0 then False else isSolvedLoop vs)"

definition isSolved :: "Tableau \<Rightarrow> error + bool" where
  "isSolved t =
     (case Dims t of (nrs, _) \<Rightarrow>
        (case RawRowView t (nrs - 1) of
           Inl e \<Rightarrow> Inl e
         | Inr row \<Rightarrow> Inr (isSolvedLoop row)))"

text \<open>The loop of \<^verbatim>\<open>negMinIdx\<close>, from index \<open>i\<close> with the running \<open>mi\<close>, \<open>mv\<close>.\<close>

function negMinIdxLoop :: "real list \<Rightarrow> int \<Rightarrow> int \<Rightarrow> real \<Rightarrow> error + int" where
  "negMinIdxLoop vec i mi mv =
     (if i < int (length vec) - 1 then
        (case AtVec vec i of
           Inl e \<Rightarrow> Inl e
         | Inr x \<Rightarrow>
             if x < mv then negMinIdxLoop vec (i + 1) i x
             else negMinIdxLoop vec (i + 1) mi mv)
      else Inr mi)"
  by pat_completeness auto
termination
  by (relation "measure (\<lambda>(vec, i, mi, mv). nat (int (length vec) - 1 - i))") auto

definition negMinIdx :: "real list \<Rightarrow> error + int" where
  "negMinIdx vec = negMinIdxLoop vec 0 (- 1) 0"

text \<open>\<^verbatim>\<open>math.MaxFloat64\<close>, the largest finite \<^verbatim>\<open>float64\<close>.\<close>

definition MaxFloat64 :: real where
  "MaxFloat64 = 2 ^ 1024 - 2 ^ 971"

text \<open>
  The row loop of \<^verbatim>\<open>pivotIdxs\<close>, from row \<open>r\<close> with the running \<open>pr\<close>,
  \<open>minq\<close>; \<open>nrs\<close> and \<open>ncs\<close> are read once, before the loop.
\<close>

function pivotRowLoop ::
    "Tableau \<Rightarrow> int \<Rightarrow> int \<Rightarrow> int \<Rightarrow> int \<Rightarrow> int \<Rightarrow> real \<Rightarrow> error + int" where
  "pivotRowLoop t nrs ncs pc r pr minq =
     (if r < nrs - 1 then
        (case At t r pc of
           Inl e \<Rightarrow> Inl e
         | Inr pce \<Rightarrow>
             if pce = 0 then pivotRowLoop t nrs ncs pc (r + 1) pr minq
             else
               (case At t r (ncs - 1) of
                  Inl e \<Rightarrow> Inl e
                | Inr b \<Rightarrow>
                    let q = b / pce
                    in if q < minq \<and> q > 0 then pivotRowLoop t nrs ncs pc (r + 1) r q
                       else pivotRowLoop t nrs ncs pc (r + 1) pr minq))
      else Inr pr)"
  by pat_completeness auto
termination
  by (relation "measure (\<lambda>(t, nrs, ncs, pc, r, pr, minq). nat (nrs - 1 - r))") auto

definition pivotIdxs :: "Tableau \<Rightarrow> error + (int \<times> int)" where
  "pivotIdxs t =
     (case Dims t of (nrs, ncs) \<Rightarrow>
        (case RowView t (nrs - 1) of
           Inl e \<Rightarrow> Inl e
         | Inr vec \<Rightarrow>
             (case negMinIdx vec of
                Inl e \<Rightarrow> Inl e
              | Inr pc \<Rightarrow>
                  (case pivotRowLoop t nrs ncs pc 0 (- 1) MaxFloat64 of
                     Inl e \<Rightarrow> Inl e
                   | Inr pr \<Rightarrow> Inr (pr, pc)))))"

definition isUnbounded :: "Tableau \<Rightarrow> error + bool" where
  "isUnbounded t =
     (case pivotIdxs t of
        Inl e \<Rightarrow> Inl e
      | Inr (pr, _) \<Rightarrow> Inr (pr < 0))"

section \<open>The pivot\<close>

definition scalePivotRow :: "Tableau \<Rightarrow> int \<Rightarrow> int \<Rightarrow> error + Tableau" where
  "scalePivotRow t pr pc =
     (case At t pr pc of
        Inl e \<Rightarrow> Inl e
      | Inr pe \<Rightarrow>
          (case RawRowView t pr of
             Inl e \<Rightarrow> Inl e
           | Inr row \<Rightarrow>
               if pe = 0 then Inl ErrNonFinite
               else SetRow t pr (scaleSlice row (1 / pe))))"

text \<open>
  The loop of \<^verbatim>\<open>elimRows\<close>, from row \<open>i\<close>; \<open>nrs\<close> is read once, before
  the loop. \<^verbatim>\<open>pivrow\<close> is a view of row \<open>pr\<close>, so each iteration reads it from
  the current tableau.
\<close>

function elimRowsLoop :: "Tableau \<Rightarrow> int \<Rightarrow> int \<Rightarrow> int \<Rightarrow> int \<Rightarrow> error + Tableau" where
  "elimRowsLoop t nrs pr pc i =
     (if i < nrs then
        (if i = pr then elimRowsLoop t nrs pr pc (i + 1)
         else
           (case RawRowView t pr of
              Inl e \<Rightarrow> Inl e
            | Inr pivrow \<Rightarrow>
                (case RawRowView t i of
                   Inl e \<Rightarrow> Inl e
                 | Inr row \<Rightarrow>
                     (case At t i pc of
                        Inl e \<Rightarrow> Inl e
                      | Inr a \<Rightarrow>
                          (case addSlices row (scaleSlice pivrow (- a)) of
                             Inl e \<Rightarrow> Inl e
                           | Inr row' \<Rightarrow>
                               (case SetRow t i row' of
                                  Inl e \<Rightarrow> Inl e
                                | Inr t' \<Rightarrow> elimRowsLoop t' nrs pr pc (i + 1)))))))
      else Inr t)"
  by pat_completeness auto
termination
  by (relation "measure (\<lambda>(t, nrs, pr, pc, i). nat (nrs - i))") auto

definition elimRows :: "Tableau \<Rightarrow> int \<Rightarrow> int \<Rightarrow> error + Tableau" where
  "elimRows t pr pc =
     (case Dims t of (nrs, _) \<Rightarrow>
        (case RawRowView t pr of
           Inl e \<Rightarrow> Inl e
         | Inr pivrow \<Rightarrow> elimRowsLoop t nrs pr pc 0))"

definition scaleAndElim :: "Tableau \<Rightarrow> error + Tableau" where
  "scaleAndElim t =
     (case pivotIdxs t of
        Inl e \<Rightarrow> Inl e
      | Inr (pr, pc) \<Rightarrow>
          (case scalePivotRow t pr pc of
             Inl e \<Rightarrow> Inl e
           | Inr t' \<Rightarrow> elimRows t' pr pc))"

section \<open>The driver and the extraction of the solution\<close>

text \<open>
  \<^verbatim>\<open>Solve\<close> mutates the tableau and returns an error or \<^verbatim>\<open>nil\<close>. The model
  returns the tableau it leaves together with the error (\<open>None\<close> for \<^verbatim>\<open>nil\<close>); a
  panic is reported in the same place. The loop has no bound, so the function is partial:
  the value \<open>None\<close> stands for a run that never returns.
\<close>

partial_function (option) Solve :: "Tableau \<Rightarrow> (Tableau \<times> error option) option" where
  "Solve t =
     (case isSolved t of
        Inl e \<Rightarrow> Some (t, Some e)
      | Inr solved \<Rightarrow>
          if solved then Some (t, None)
          else
            (case isUnbounded t of
               Inl e \<Rightarrow> Some (t, Some e)
             | Inr unbounded \<Rightarrow>
                 if unbounded then Some (t, Some ERR_UNBOUNDED)
                 else
                   (case scaleAndElim t of
                      Inl e \<Rightarrow> Some (t, Some e)
                    | Inr t' \<Rightarrow> Solve t')))"

text \<open>The inner loop of \<^verbatim>\<open>ReadSoln\<close>: the rows from \<open>i\<close> on, for column \<open>j\<close>.\<close>

function readSolnRows ::
    "Tableau \<Rightarrow> int \<Rightarrow> int \<Rightarrow> int \<Rightarrow> int \<Rightarrow> real list \<Rightarrow> error + real list" where
  "readSolnRows t nrs ncs j i vals =
     (if i < nrs - 1 then
        (case At t i j of
           Inl e \<Rightarrow> Inl e
         | Inr x \<Rightarrow>
             if x = 1 then
               (case At t i (ncs - 1) of
                  Inl e \<Rightarrow> Inl e
                | Inr b \<Rightarrow>
                    if j < 0 \<or> int (length vals) \<le> j then Inl ErrIndexOutOfRange
                    else Inr (vals[nat j := b]))
             else readSolnRows t nrs ncs j (i + 1) vals)
      else Inr vals)"
  by pat_completeness auto
termination
  by (relation "measure (\<lambda>(t, nrs, ncs, j, i, vals). nat (nrs - 1 - i))") auto

text \<open>The outer loop of \<^verbatim>\<open>ReadSoln\<close>: the columns from \<open>j\<close> on.\<close>

function readSolnCols ::
    "Tableau \<Rightarrow> int \<Rightarrow> int \<Rightarrow> int \<Rightarrow> int \<Rightarrow> real list \<Rightarrow> error + real list" where
  "readSolnCols t nrs ncs nvs j vals =
     (if j < nvs then
        (case readSolnRows t nrs ncs j 0 vals of
           Inl e \<Rightarrow> Inl e
         | Inr vals' \<Rightarrow> readSolnCols t nrs ncs nvs (j + 1) vals')
      else Inr vals)"
  by pat_completeness auto
termination
  by (relation "measure (\<lambda>(t, nrs, ncs, nvs, j, vals). nat (nvs - j))") auto

text \<open>The part of \<^verbatim>\<open>ReadSoln\<close> after its two guards (from \<^verbatim>\<open>t.Dims()\<close> on).\<close>

definition readSolnVals :: "Tableau \<Rightarrow> error + (real list \<times> real)" where
  "readSolnVals t =
     (case Dims t of (nrs, ncs) \<Rightarrow>
        let nvs = ncs - nrs
        in if nvs < 0 then Inl ErrMakeSlice
           else
             (case readSolnCols t nrs ncs nvs 0 (replicate (nat nvs) 0) of
                Inl e \<Rightarrow> Inl e
              | Inr vals \<Rightarrow>
                  (case At t (nrs - 1) (ncs - 1) of
                     Inl e \<Rightarrow> Inl e
                   | Inr z \<Rightarrow> Inr (vals, z))))"

definition ReadSoln :: "Tableau \<Rightarrow> error + (real list \<times> real)" where
  "ReadSoln t =
     (case isSolved t of
        Inl e \<Rightarrow> Inl e
      | Inr solved \<Rightarrow>
          if \<not> solved then Inl ERR_UNSOLVED
          else
            (case isUnbounded t of
               Inl e \<Rightarrow> Inl e
             | Inr unbounded \<Rightarrow>
                 if unbounded then Inl ERR_UNBOUNDED
                 else readSolnVals t))"

section \<open>Notions used to state the properties\<close>

text \<open>
  The invariant of \<^verbatim>\<open>mat.Dense\<close> that \<^verbatim>\<open>mat.NewDense\<close> establishes and every
  method keeps: the data slice holds \<open>Rows * Cols\<close> entries.
\<close>

definition wfTableau :: "Tableau \<Rightarrow> bool" where
  "wfTableau t \<longleftrightarrow> 0 \<le> Rows t \<and> 0 \<le> Cols t \<and> int (length (Data t)) = Rows t * Cols t"

text \<open>The entry at row \<open>i\<close>, column \<open>j\<close>, and row \<open>i\<close>, for indices in range.\<close>

definition entry :: "Tableau \<Rightarrow> int \<Rightarrow> int \<Rightarrow> real" where
  "entry t i j = Data t ! nat (i * Cols t + j)"

definition rowOf :: "Tableau \<Rightarrow> int \<Rightarrow> real list" where
  "rowOf t i = take (nat (Cols t)) (drop (nat (i * Cols t)) (Data t))"

text \<open>
  The ratio of the right-hand side of row \<open>r\<close> to its entry in column \<open>pc\<close>, and the
  rows that take part in the ratio test: a non-zero entry and a strictly positive ratio.
\<close>

definition ratio :: "Tableau \<Rightarrow> int \<Rightarrow> int \<Rightarrow> real" where
  "ratio t r pc = entry t r (Cols t - 1) / entry t r pc"

definition positiveRatio :: "Tableau \<Rightarrow> int \<Rightarrow> int \<Rightarrow> bool" where
  "positiveRatio t pc r \<longleftrightarrow> entry t r pc \<noteq> 0 \<and> 0 < ratio t r pc"

text \<open>The loop invariants of \<^verbatim>\<open>negMinIdx\<close> and of the row loop of \<^verbatim>\<open>pivotIdxs\<close>.\<close>

definition negMinInv :: "real list \<Rightarrow> int \<Rightarrow> int \<Rightarrow> real \<Rightarrow> bool" where
  "negMinInv vec i mi mv \<longleftrightarrow>
     (mi = - 1 \<and> mv = 0 \<and> (\<forall>k. 0 \<le> k \<and> k < i \<longrightarrow> 0 \<le> vec ! nat k)) \<or>
     (0 \<le> mi \<and> mi < i \<and> mv = vec ! nat mi \<and> mv < 0 \<and>
      (\<forall>k. 0 \<le> k \<and> k < i \<longrightarrow> mv \<le> vec ! nat k) \<and>
      (\<forall>k. 0 \<le> k \<and> k < mi \<longrightarrow> mv < vec ! nat k))"

definition pivotRowInv :: "Tableau \<Rightarrow> int \<Rightarrow> int \<Rightarrow> int \<Rightarrow> real \<Rightarrow> bool" where
  "pivotRowInv t pc r pr minq \<longleftrightarrow>
     (pr = - 1 \<and> minq = MaxFloat64 \<and>
      (\<forall>k. 0 \<le> k \<and> k < r \<longrightarrow> \<not> (positiveRatio t pc k \<and> ratio t k pc < MaxFloat64))) \<or>
     (0 \<le> pr \<and> pr < r \<and> positiveRatio t pc pr \<and> minq = ratio t pr pc \<and> minq < MaxFloat64 \<and>
      (\<forall>k. 0 \<le> k \<and> k < r \<longrightarrow> (positiveRatio t pc k \<longrightarrow> minq \<le> ratio t k pc)) \<and>
      (\<forall>k. 0 \<le> k \<and> k < pr \<longrightarrow> (positiveRatio t pc k \<longrightarrow> minq < ratio t k pc)))"

text \<open>The constraint rows that \<^verbatim>\<open>NewTableau\<close> lays out, from constraint \<open>i\<close> on.\<close>

fun tableauRowsFrom :: "nat \<Rightarrow> nat \<Rightarrow> Constraint list \<Rightarrow> real list" where
  "tableauRowsFrom m i [] = []"
| "tableauRowsFrom m i (c # cs) =
     (Coefficients c @ ((replicate m 0)[i := 1] @ [RightHandSide c]))
       @ tableauRowsFrom m (i + 1) cs"

text \<open>
  The append of \<open>k\<close> elements to the slice \<open>s\<close> leaves the elements of the slice
  \<open>ob\<close> alone: another backing array, or no room (the append allocates), or the
  range written is disjoint from the elements of \<open>ob\<close>.
\<close>

definition appendClearOf :: "Slice \<Rightarrow> nat \<Rightarrow> Slice \<Rightarrow> bool" where
  "appendClearOf s k ob \<longleftrightarrow>
     Arr s \<noteq> Arr ob \<or> Cap s < Len s + k \<or>
     Off s + Len s + k \<le> Off ob \<or> Off ob + Len ob \<le> Off s + Len s"

text \<open>The value of a constraint of the heap.\<close>

definition constraintValue :: "Heap \<Rightarrow> ConstraintRef \<Rightarrow> Constraint" where
  "constraintValue h c =
     \<lparr>Coefficients = sliceElems h (CoefficientsRef c), RightHandSide = RightHandSideRef c\<rparr>"

text \<open>The last row of the tableau that \<^verbatim>\<open>NewTableau\<close> returns.\<close>

definition NewTableauHeapLastRow ::
    "Heap \<Rightarrow> ConstraintRef list \<Rightarrow> Slice \<Rightarrow> error + real list" where
  "NewTableauHeapLastRow h cs ob =
     (case snd (NewTableauHeap h cs ob) of
        Inl e \<Rightarrow> Inl e
      | Inr t \<Rightarrow> RawRowView t (Rows t - 1))"

text \<open>
  The calling sequence of the end-to-end example: \<^verbatim>\<open>NewTableau\<close>, then
  \<^verbatim>\<open>Solve\<close>, then \<^verbatim>\<open>ReadSoln\<close>, stopping at the first error.
\<close>

definition buildSolveRead ::
    "Constraint list \<Rightarrow> Objective \<Rightarrow> (error + real list \<times> real) option" where
  "buildSolveRead cs ob =
     (case NewTableau cs ob of
        Inl e \<Rightarrow> Some (Inl e)
      | Inr t \<Rightarrow>
          (case Solve t of
             None \<Rightarrow> None
           | Some (t', Some e) \<Rightarrow> Some (Inl e)
           | Some (t', None) \<Rightarrow> Some (ReadSoln t')))"

subsection \<open>The linear program behind a tableau\<close>

text \<open>
  A point assigns a value to each of the \<open>n + m\<close> variable columns (structural
  variables first, then slacks). Row \<open>r\<close> of a tableau stands for the equation
  \<open>rowSum t r y = rhs t r\<close>; its residual is the difference of the two sides.
\<close>

definition nVars :: "Tableau \<Rightarrow> nat" where
  "nVars t = nat (Cols t - 1)"

definition rhs :: "Tableau \<Rightarrow> int \<Rightarrow> real" where
  "rhs t r = entry t r (Cols t - 1)"

definition rowSum :: "Tableau \<Rightarrow> int \<Rightarrow> (nat \<Rightarrow> real) \<Rightarrow> real" where
  "rowSum t r y = (\<Sum>j<nVars t. entry t r (int j) * y j)"

definition residual :: "Tableau \<Rightarrow> int \<Rightarrow> (nat \<Rightarrow> real) \<Rightarrow> real" where
  "residual t r y = rowSum t r y - rhs t r"

definition constraintsHold :: "Tableau \<Rightarrow> (nat \<Rightarrow> real) \<Rightarrow> bool" where
  "constraintsHold t y \<longleftrightarrow> (\<forall>r. 0 \<le> r \<and> r < Rows t - 1 \<longrightarrow> residual t r y = 0)"

definition feasiblePoint :: "Tableau \<Rightarrow> (nat \<Rightarrow> real) \<Rightarrow> bool" where
  "feasiblePoint t y \<longleftrightarrow> (\<forall>j<nVars t. 0 \<le> y j) \<and> constraintsHold t y"

text \<open>
  The objective row stands for \<open>z + rowSum t m y = rhs t m\<close>, where \<open>z\<close> is the value
  that the pivots drive up.
\<close>

definition objValue :: "Tableau \<Rightarrow> (nat \<Rightarrow> real) \<Rightarrow> real" where
  "objValue t y = - residual t (Rows t - 1) y"

definition boundedTableau :: "Tableau \<Rightarrow> bool" where
  "boundedTableau t \<longleftrightarrow> (\<exists>K. \<forall>y. feasiblePoint t y \<longrightarrow> objValue t y \<le> K)"

definition nonDegenerateTableau :: "Tableau \<Rightarrow> bool" where
  "nonDegenerateTableau t \<longleftrightarrow>
     (\<forall>y. feasiblePoint t y \<longrightarrow> nat (Rows t - 1) \<le> card {j. j < nVars t \<and> 0 < y j})"

definition belowMaxTableau :: "Tableau \<Rightarrow> bool" where
  "belowMaxTableau t \<longleftrightarrow> (\<forall>y. feasiblePoint t y \<longrightarrow> (\<forall>j<nVars t. y j < MaxFloat64))"

text \<open>
  A basis gives each constraint row a column that is the unit vector of that row (over
  all rows, the objective row included). The point of a basis, moved by \<open>l\<close> along a
  further column \<open>pc\<close>, has the weight \<open>w r\<close> at the column of row \<open>r\<close>.
\<close>

definition basisOf :: "Tableau \<Rightarrow> (int \<Rightarrow> nat) \<Rightarrow> bool" where
  "basisOf t \<beta> \<longleftrightarrow>
     (\<forall>r. 0 \<le> r \<and> r < Rows t - 1 \<longrightarrow>
        \<beta> r < nVars t \<and>
        (\<forall>i. 0 \<le> i \<and> i < Rows t \<longrightarrow> entry t i (int (\<beta> r)) = (if i = r then 1 else 0)))"

definition basicPoint ::
    "int \<Rightarrow> (int \<Rightarrow> nat) \<Rightarrow> (int \<Rightarrow> real) \<Rightarrow> nat \<Rightarrow> real \<Rightarrow> nat \<Rightarrow> real" where
  "basicPoint m \<beta> w pc l j =
     (\<Sum>r \<in> {0..<m}. if \<beta> r = j then w r else 0) + (if j = pc then l else 0)"

text \<open>
  What every tableau \<open>t\<close> that \<^verbatim>\<open>Solve\<close> reaches from \<open>t0\<close> satisfies: the shape and
  the solutions of the constraint rows are those of \<open>t0\<close>, the objective row gives the
  same values on them, there is a basis, and the right-hand sides are positive.
\<close>

definition simplexInv :: "Tableau \<Rightarrow> Tableau \<Rightarrow> bool" where
  "simplexInv t0 t \<longleftrightarrow>
     wfTableau t \<and> 1 \<le> Rows t \<and> 1 \<le> Cols t \<and> Rows t = Rows t0 \<and> Cols t = Cols t0 \<and>
     (\<forall>y. constraintsHold t y \<longleftrightarrow> constraintsHold t0 y) \<and>
     (\<forall>y. constraintsHold t0 y \<longrightarrow> residual t (Rows t - 1) y = residual t0 (Rows t0 - 1) y) \<and>
     (\<exists>\<beta>. basisOf t \<beta>) \<and>
     (\<forall>r. 0 \<le> r \<and> r < Rows t - 1 \<longrightarrow> 0 < rhs t r) \<and>
     0 \<le> rhs t (Rows t - 1)"

text \<open>
  The sets of columns that carry a feasible point of value above \<open>v\<close>: their number
  is the measure that each pivot decreases.
\<close>

definition improvingBases :: "Tableau \<Rightarrow> real \<Rightarrow> nat set set" where
  "improvingBases t0 v =
     {S. S \<subseteq> {..<nVars t0} \<and>
         (\<exists>y. feasiblePoint t0 y \<and> (\<forall>j<nVars t0. j \<notin> S \<longrightarrow> y j = 0) \<and> v < objValue t0 y)}"

subsection \<open>The linear program of a list of constraints and an objective\<close>

text \<open>
  The row that \<^verbatim>\<open>NewTableau\<close> makes of constraint \<open>i\<close>, and the tableau it returns
  when the coefficient counts agree.
\<close>

definition constraintRow :: "nat \<Rightarrow> nat \<Rightarrow> Constraint \<Rightarrow> real list" where
  "constraintRow m i c = Coefficients c @ ((replicate m 0)[i := 1] @ [RightHandSide c])"

definition newTableauOf :: "Constraint list \<Rightarrow> Objective \<Rightarrow> Tableau" where
  "newTableauOf cs ob =
     \<lparr>Rows = int (length cs) + 1, Cols = int (length ob) + int (length cs) + 1,
      Data = tableauRowsFrom (length cs) 0 cs @ (ob @ replicate (length cs + 1) 0)\<rparr>"

text \<open>
  The program in equality form: \<open>y j\<close> for \<open>j < n\<close> are the decision variables,
  \<open>y (n + i)\<close> is the slack of constraint \<open>i\<close>, all non-negative. The objective row of
  the tableau holds the objective \<open>ob\<close> as passed, so the value that \<^verbatim>\<open>Solve\<close>
  maximises is \<open>- ob \<cdot> y\<close>. The program is bounded when that value is bounded on the
  feasible points; it is non-degenerate when every feasible point has at least \<open>m\<close>
  positive coordinates (equivalently: no basic feasible solution has a zero basic
  variable).
\<close>

definition lpFeasible :: "Constraint list \<Rightarrow> Objective \<Rightarrow> (nat \<Rightarrow> real) \<Rightarrow> bool" where
  "lpFeasible cs ob y \<longleftrightarrow>
     (\<forall>j<length ob + length cs. 0 \<le> y j) \<and>
     (\<forall>i<length cs. (\<Sum>j<length ob. Coefficients (cs ! i) ! j * y j) + y (length ob + i)
                      = RightHandSide (cs ! i))"

definition lpValue :: "Objective \<Rightarrow> (nat \<Rightarrow> real) \<Rightarrow> real" where
  "lpValue ob y = - (\<Sum>j<length ob. ob ! j * y j)"

definition lpBounded :: "Constraint list \<Rightarrow> Objective \<Rightarrow> bool" where
  "lpBounded cs ob \<longleftrightarrow> (\<exists>K. \<forall>y. lpFeasible cs ob y \<longrightarrow> lpValue ob y \<le> K)"

definition lpNonDegenerate :: "Constraint list \<Rightarrow> Objective \<Rightarrow> bool" where
  "lpNonDegenerate cs ob \<longleftrightarrow>
     (\<forall>y. lpFeasible cs ob y \<longrightarrow> length cs \<le> card {j. j < length ob + length cs \<and> 0 < y j})"

text \<open>Every coordinate of every feasible point is below \<^verbatim>\<open>math.MaxFloat64\<close>.\<close>

definition lpBelowMax :: "Constraint list \<Rightarrow> Objective \<Rightarrow> bool" where
  "lpBelowMax cs ob \<longleftrightarrow>
     (\<forall>y. lpFeasible cs ob y \<longrightarrow> (\<forall>j<length ob + length cs. y j < MaxFloat64))"

subsection \<open>The tableaux of the repository's tests\<close>

text \<open>The constraints of the case \<^verbatim>\<open>"basic lp"\<close>, its initial and its solved tableau.\<close>

definition lp1 :: "Constraint list" where
  "lp1 = [\<lparr>Coefficients = [2, 1], RightHandSide = 18\<rparr>,
          \<lparr>Coefficients = [6, 5], RightHandSide = 60\<rparr>,
          \<lparr>Coefficients = [2, 5], RightHandSide = 40\<rparr>]"

definition lp1Initial :: Tableau where
  "lp1Initial = \<lparr>Rows = 4, Cols = 6, Data =
     [2, 1, 1, 0, 0, 18,
      6, 5, 0, 1, 0, 60,
      2, 5, 0, 0, 1, 40,
      - 2, - 3, 0, 0, 0, 0]\<rparr>"

definition lp1Solved :: Tableau where
  "lp1Solved = \<lparr>Rows = 4, Cols = 6, Data =
     [0, 0, 1, - (2 / 5), 1 / 5, 2,
      1, 0, 0, 1 / 4, - (1 / 4), 5,
      0, 1, 0, - (1 / 10), 3 / 10, 6,
      0, 0, 0, 1 / 5, 2 / 5, 28]\<rparr>"

text \<open>The tableau that \<^verbatim>\<open>TestReadSoln\<close> reads in its case \<^verbatim>\<open>"unbounded"\<close>.\<close>

definition unboundedTableau :: Tableau where
  "unboundedTableau = \<lparr>Rows = 3, Cols = 6, Data =
     [0, 0, 0, 1, - 2, 2,
      1, - (1 / 2), 1 / 2, 0, 1 / 2, 1 / 2,
      0, - (7 / 2), 13 / 2, 0, 3 / 2, 3 / 2]\<rparr>"

text \<open>
  A tableau with one constraint row whose objective row \<open>[1, 0 | -3]\<close> is negative in
  the right-hand-side column only.
\<close>

definition negativeRhsTableau :: Tableau where
  "negativeRhsTableau = \<lparr>Rows = 2, Cols = 3, Data =
     [1, 1, 4,
      1, 0, - 3]\<rparr>"

text \<open>A tableau whose only constraint row has the ratio \<^verbatim>\<open>math.MaxFloat64\<close>.\<close>

definition sentinelTableau :: Tableau where
  "sentinelTableau = \<lparr>Rows = 2, Cols = 2, Data =
     [1, MaxFloat64,
      - 1, 0]\<rparr>"

text \<open>A two by two tableau to pivot on its entry \<open>(0, 0)\<close>.\<close>

definition smallTableau :: Tableau where
  "smallTableau = \<lparr>Rows = 2, Cols = 2, Data =
     [2, 4,
      1, 3]\<rparr>"

text \<open>The program \<open>x \<le> math.MaxFloat64\<close>, and the tableau of its objective \<open>[-1]\<close>.\<close>

definition sentinelLP :: "Constraint list" where
  "sentinelLP = [\<lparr>Coefficients = [1], RightHandSide = MaxFloat64\<rparr>]"

definition sentinelInitial :: Tableau where
  "sentinelInitial = \<lparr>Rows = 2, Cols = 3, Data =
     [1, 1, MaxFloat64,
      - 1, 0, 0]\<rparr>"

text \<open>The tableau after a pivot on its row \<open>0\<close> and column \<open>0\<close>.\<close>

definition sentinelPivoted :: Tableau where
  "sentinelPivoted = \<lparr>Rows = 2, Cols = 3, Data =
     [1, 1, MaxFloat64,
      0, 1, MaxFloat64]\<rparr>"

text \<open>
  The case \<^verbatim>\<open>"basic lp"\<close> on the heap: four slice literals, each with its own array
  and with capacity equal to its length.
\<close>

definition testHeap :: Heap where
  "testHeap = (\<lambda>a. if a = 0 then [2, 1] else if a = 1 then [6, 5]
                    else if a = 2 then [2, 5] else if a = 3 then [- 2, - 3] else [])"

definition lp1Refs :: "ConstraintRef list" where
  "lp1Refs =
     [\<lparr>CoefficientsRef = \<lparr>Arr = 0, Off = 0, Len = 2, Cap = 2\<rparr>, RightHandSideRef = 18\<rparr>,
      \<lparr>CoefficientsRef = \<lparr>Arr = 1, Off = 0, Len = 2, Cap = 2\<rparr>, RightHandSideRef = 60\<rparr>,
      \<lparr>CoefficientsRef = \<lparr>Arr = 2, Off = 0, Len = 2, Cap = 2\<rparr>, RightHandSideRef = 40\<rparr>]"

definition objectiveRef :: Slice where
  "objectiveRef = \<lparr>Arr = 3, Off = 0, Len = 2, Cap = 2\<rparr>"

text \<open>
  A constraint and an objective cut from one array: \<^verbatim>\<open>base[0:2]\<close> and
  \<^verbatim>\<open>base[2:4]\<close> of \<^verbatim>\<open>base := []float64{2, 1, -2, -3, 0, 0}\<close>, the constraint with
  the right-hand side \<open>18\<close>.
\<close>

definition aliasHeap :: Heap where
  "aliasHeap = (\<lambda>a. if a = 0 then [2, 1, - 2, - 3, 0, 0] else [])"

definition aliasConstraints :: "ConstraintRef list" where
  "aliasConstraints =
     [\<lparr>CoefficientsRef = \<lparr>Arr = 0, Off = 0, Len = 2, Cap = 6\<rparr>, RightHandSideRef = 18\<rparr>]"

definition aliasObjective :: Slice where
  "aliasObjective = \<lparr>Arr = 0, Off = 2, Len = 2, Cap = 4\<rparr>"

section \<open>Indexing the row-major data\<close>

lemma row_index_less:
  fixes i j R C :: nat
  assumes "i < R" "j < C"
  shows "i * C + j < R * C"
proof -
  have "i * C + j < i * C + C" using assms by simp
  also have "\<dots> = (i + 1) * C" by simp
  also have "\<dots> \<le> R * C" using assms by (intro mult_le_mono1) simp
  finally show ?thesis .
qed

lemma nth_row_update:
  fixes D src :: "'a list"
  assumes len: "length D = R * C" and i: "i < R" and src: "length src = C"
    and i': "i' < R" and j: "j < C"
  shows "(take (i * C) D @ src @ drop ((i + 1) * C) D) ! (i' * C + j)
         = (if i' = i then src ! j else D ! (i' * C + j))"
proof -
  have iC: "i * C \<le> length D" using len i by simp
  have tk: "length (take (i * C) D) = i * C" using iC by simp
  consider "i' < i" | "i' = i" | "i < i'" by linarith
  then show ?thesis
  proof cases
    case 1
    then have "i' * C + j < i * C" using row_index_less[of i' i j C] j by simp
    then show ?thesis using 1 tk by (simp add: nth_append)
  next
    case 2
    then show ?thesis using tk j src by (simp add: nth_append)
  next
    case 3
    then have ge: "(i + 1) * C \<le> i' * C" by (intro mult_le_mono1) simp
    then have a: "\<not> i' * C + j < i * C" by simp
    have b: "\<not> i' * C + j - i * C < C" using ge by simp
    have c: "(i + 1) * C + (i' * C + j - i * C - C) = i' * C + j" using ge by simp
    have "(i + 1) * C \<le> R * C" using i by (intro mult_le_mono1) simp
    then have d: "(i + 1) * C \<le> length D" using len by simp
    have "(take (i * C) D @ src @ drop ((i + 1) * C) D) ! (i' * C + j)
          = drop ((i + 1) * C) D ! (i' * C + j - i * C - C)"
      using tk a b src by (simp add: nth_append)
    also have "\<dots> = D ! ((i + 1) * C + (i' * C + j - i * C - C))"
      using d by (rule nth_drop)
    also have "\<dots> = D ! (i' * C + j)" using c by simp
    finally show ?thesis using 3 by simp
  qed
qed

lemma nth_row_view:
  fixes D :: "'a list"
  assumes len: "length D = R * C" and i: "i < R" and j: "j < C"
  shows "take C (drop (i * C) D) ! j = D ! (i * C + j)"
    and "length (take C (drop (i * C) D)) = C"
proof -
  have "(i + 1) * C \<le> R * C" using i by (intro mult_le_mono1) simp
  then have "i * C + C \<le> length D" using len by simp
  then show "length (take C (drop (i * C) D)) = C" by simp
  show "take C (drop (i * C) D) ! j = D ! (i * C + j)" using j len i
    by (simp add: nth_drop)
qed



section \<open>Reading and writing rows\<close>

lemma nat_index:
  assumes "0 \<le> i" "0 \<le> c" "0 \<le> j"
  shows "nat (i * c + j) = nat i * nat c + nat j"
  using assms by (simp add: nat_add_distrib nat_mult_distrib)

lemma wf_length: "wfTableau t \<Longrightarrow> length (Data t) = nat (Rows t) * nat (Cols t)"
  unfolding wfTableau_def by (metis nat_int nat_mult_distrib)

lemma At_entry:
  "0 \<le> i \<Longrightarrow> i < Rows t \<Longrightarrow> 0 \<le> j \<Longrightarrow> j < Cols t \<Longrightarrow> At t i j = Inr (entry t i j)"
  by (simp add: At_def entry_def)

lemma RawRowView_rowOf:
  "0 \<le> i \<Longrightarrow> i < Rows t \<Longrightarrow> RawRowView t i = Inr (rowOf t i)"
  by (simp add: RawRowView_def rowOf_def)

lemma length_rowOf:
  assumes "wfTableau t" "0 \<le> i" "i < Rows t"
  shows "length (rowOf t i) = nat (Cols t)"
proof -
  have c: "0 \<le> Cols t" using assms by (simp add: wfTableau_def)
  have "length (take (nat (Cols t)) (drop (nat i * nat (Cols t)) (Data t))) = nat (Cols t)"
  proof (cases "Cols t = 0")
    case True then show ?thesis by simp
  next
    case False
    then have "0 < nat (Cols t)" using c by simp
    then show ?thesis
      using nth_row_view(2)[OF wf_length[OF assms(1)], of "nat i" 0] assms by simp
  qed
  then show ?thesis using assms c by (simp add: rowOf_def nat_mult_distrib)
qed

lemma nth_rowOf:
  assumes "wfTableau t" "0 \<le> i" "i < Rows t" "0 \<le> j" "j < Cols t"
  shows "rowOf t i ! nat j = entry t i j"
proof -
  have c: "0 \<le> Cols t" using assms by (simp add: wfTableau_def)
  have "take (nat (Cols t)) (drop (nat i * nat (Cols t)) (Data t)) ! nat j
        = Data t ! (nat i * nat (Cols t) + nat j)"
    using nth_row_view(1)[OF wf_length[OF assms(1)], of "nat i" "nat j"] assms by simp
  then show ?thesis
    using assms c by (simp add: rowOf_def entry_def nat_index nat_mult_distrib)
qed

lemma SetRow_props:
  assumes wf: "wfTableau t" and i: "0 \<le> i" "i < Rows t" and src: "int (length src) = Cols t"
  obtains t' where "SetRow t i src = Inr t'" "wfTableau t'" "Rows t' = Rows t" "Cols t' = Cols t"
    "\<And>i' j. 0 \<le> i' \<Longrightarrow> i' < Rows t \<Longrightarrow> 0 \<le> j \<Longrightarrow> j < Cols t \<Longrightarrow>
        entry t' i' j = (if i' = i then src ! nat j else entry t i' j)"
proof -
  let ?D = "take (nat (i * Cols t)) (Data t) @ src @ drop (nat ((i + 1) * Cols t)) (Data t)"
  let ?t = "t\<lparr>Data := ?D\<rparr>"
  have c: "0 \<le> Cols t" using wf by (simp add: wfTableau_def)
  have len: "length (Data t) = nat (Rows t) * nat (Cols t)" by (rule wf_length[OF wf])
  have srcn: "length src = nat (Cols t)" using src by simp
  have n1: "nat (i * Cols t) = nat i * nat (Cols t)" using i c by (simp add: nat_mult_distrib)
  have n2: "nat ((i + 1) * Cols t) = (nat i + 1) * nat (Cols t)"
    using i c by (simp add: nat_mult_distrib nat_add_distrib)
  have "nat i * nat (Cols t) \<le> nat (Rows t) * nat (Cols t)"
    using i by (intro mult_le_mono1) simp
  then have le1: "nat i * nat (Cols t) \<le> length (Data t)" using len by simp
  have "(nat i + 1) * nat (Cols t) \<le> nat (Rows t) * nat (Cols t)"
    using i by (intro mult_le_mono1) simp
  then have le2: "(nat i + 1) * nat (Cols t) \<le> length (Data t)" using len by simp
  have lenD: "length ?D = length (Data t)" using le1 le2 srcn unfolding n1 n2 by simp
  have 1: "SetRow t i src = Inr ?t" using i src by (simp add: SetRow_def)
  have 2: "wfTableau ?t" using wf lenD by (simp add: wfTableau_def)
  have 5: "entry ?t i' j = (if i' = i then src ! nat j else entry t i' j)"
    if "0 \<le> i'" "i' < Rows t" "0 \<le> j" "j < Cols t" for i' j
  proof -
    have "?D ! (nat i' * nat (Cols t) + nat j)
          = (if nat i' = nat i then src ! nat j else Data t ! (nat i' * nat (Cols t) + nat j))"
      unfolding n1 n2 using nth_row_update[OF len, of "nat i" src "nat i'" "nat j"] i that srcn
      by simp
    moreover have "nat i' = nat i \<longleftrightarrow> i' = i" using that i by auto
    ultimately show ?thesis using that i c by (simp add: entry_def nat_index)
  qed
  show ?thesis using that[OF 1 2 _ _ 5] by simp
qed



section \<open>The pivot step\<close>

declare elimRowsLoop.simps [simp del]
declare pivotRowLoop.simps [simp del]
declare negMinIdxLoop.simps [simp del]
declare readSolnRows.simps [simp del]
declare readSolnCols.simps [simp del]

lemma scalePivotRow_props:
  assumes wf: "wfTableau t" and pr: "0 \<le> pr" "pr < Rows t" and pc: "0 \<le> pc" "pc < Cols t"
    and pe: "entry t pr pc \<noteq> 0"
  obtains t' where "scalePivotRow t pr pc = Inr t'" "wfTableau t'" "Rows t' = Rows t"
    "Cols t' = Cols t"
    "\<And>i j. 0 \<le> i \<Longrightarrow> i < Rows t \<Longrightarrow> 0 \<le> j \<Longrightarrow> j < Cols t \<Longrightarrow>
        entry t' i j = (if i = pr then entry t pr j * (1 / entry t pr pc) else entry t i j)"
proof -
  let ?src = "scaleSlice (rowOf t pr) (1 / entry t pr pc)"
  have len: "int (length ?src) = Cols t"
    using length_rowOf[OF wf pr] wf by (simp add: scaleSlice_def mapFloats_def wfTableau_def)
  obtain t' where t': "SetRow t pr ?src = Inr t'" "wfTableau t'" "Rows t' = Rows t"
    "Cols t' = Cols t"
    and ent: "\<And>i' j. 0 \<le> i' \<Longrightarrow> i' < Rows t \<Longrightarrow> 0 \<le> j \<Longrightarrow> j < Cols t \<Longrightarrow>
        entry t' i' j = (if i' = pr then ?src ! nat j else entry t i' j)"
    using SetRow_props[OF wf pr len] by blast
  have 1: "scalePivotRow t pr pc = Inr t'"
    using t'(1) pe by (simp add: scalePivotRow_def At_entry[OF pr pc] RawRowView_rowOf[OF pr])
  have 5: "entry t' i j = (if i = pr then entry t pr j * (1 / entry t pr pc) else entry t i j)"
    if "0 \<le> i" "i < Rows t" "0 \<le> j" "j < Cols t" for i j
  proof -
    have "nat j < length (rowOf t pr)" using length_rowOf[OF wf pr] that by simp
    then have "?src ! nat j = entry t pr j * (1 / entry t pr pc)"
      using nth_rowOf[OF wf pr that(3,4)] by (simp add: scaleSlice_def mapFloats_def)
    then show ?thesis using ent[OF that] by simp
  qed
  show ?thesis using that[OF 1 t'(2,3,4) 5] by simp
qed

lemma elimRowsLoop_done: "\<not> i < nrs \<Longrightarrow> elimRowsLoop t nrs pr pc i = Inr t"
  by (subst elimRowsLoop.simps) simp

lemma elimRowsLoop_skip:
  "i < nrs \<Longrightarrow> i = pr \<Longrightarrow> elimRowsLoop t nrs pr pc i = elimRowsLoop t nrs pr pc (i + 1)"
  by (subst elimRowsLoop.simps) simp

lemma elimRowsLoop_step:
  "i < nrs \<Longrightarrow> i \<noteq> pr \<Longrightarrow> RawRowView t pr = Inr pivrow \<Longrightarrow> RawRowView t i = Inr row \<Longrightarrow>
   At t i pc = Inr a \<Longrightarrow> addSlices row (scaleSlice pivrow (- a)) = Inr row' \<Longrightarrow>
   SetRow t i row' = Inr t' \<Longrightarrow>
   elimRowsLoop t nrs pr pc i = elimRowsLoop t' nrs pr pc (i + 1)"
  by (subst elimRowsLoop.simps) simp

lemma elimRowsLoop_props:
  assumes "wfTableau t" "nrs = Rows t" "0 \<le> pr" "pr < Rows t" "0 \<le> pc" "pc < Cols t" "0 \<le> i"
  shows "\<exists>t'. elimRowsLoop t nrs pr pc i = Inr t' \<and> wfTableau t' \<and> Rows t' = Rows t
           \<and> Cols t' = Cols t
           \<and> (\<forall>k j. 0 \<le> k \<longrightarrow> k < Rows t \<longrightarrow> 0 \<le> j \<longrightarrow> j < Cols t \<longrightarrow>
                 entry t' k j = (if k < i \<or> k = pr then entry t k j
                                 else entry t k j + entry t pr j * (- entry t k pc)))"
  using assms
proof (induction t nrs pr pc i rule: elimRowsLoop.induct)
  case (1 t nrs pr pc i)
  note wf = \<open>wfTableau t\<close> and pr = \<open>0 \<le> pr\<close> \<open>pr < Rows t\<close> and pc = \<open>0 \<le> pc\<close> \<open>pc < Cols t\<close>
  show ?case
  proof (cases "i < nrs")
    case False
    then have "elimRowsLoop t nrs pr pc i = Inr t" by (rule elimRowsLoop_done)
    then show ?thesis using False 1(3-) by auto
  next
    case lt: True
    show ?thesis
    proof (cases "i = pr")
      case True
      have "\<exists>t'. elimRowsLoop t nrs pr pc (i + 1) = Inr t' \<and> wfTableau t' \<and> Rows t' = Rows t
           \<and> Cols t' = Cols t
           \<and> (\<forall>k j. 0 \<le> k \<longrightarrow> k < Rows t \<longrightarrow> 0 \<le> j \<longrightarrow> j < Cols t \<longrightarrow>
                 entry t' k j = (if k < i + 1 \<or> k = pr then entry t k j
                                 else entry t k j + entry t pr j * (- entry t k pc)))"
        using 1(1)[OF lt True] 1(3-) by simp
      then obtain t' where t': "elimRowsLoop t nrs pr pc (i + 1) = Inr t'" "wfTableau t'"
        "Rows t' = Rows t" "Cols t' = Cols t"
        and ent: "\<And>k j. 0 \<le> k \<Longrightarrow> k < Rows t \<Longrightarrow> 0 \<le> j \<Longrightarrow> j < Cols t \<Longrightarrow>
                 entry t' k j = (if k < i + 1 \<or> k = pr then entry t k j
                                 else entry t k j + entry t pr j * (- entry t k pc))"
        by blast
      have "elimRowsLoop t nrs pr pc i = Inr t'"
        using t'(1) elimRowsLoop_skip[OF lt True] by simp
      moreover have "entry t' k j = (if k < i \<or> k = pr then entry t k j
                                 else entry t k j + entry t pr j * (- entry t k pc))"
        if "0 \<le> k" "k < Rows t" "0 \<le> j" "j < Cols t" for k j
        using ent[OF that] True by auto
      ultimately show ?thesis using t'(2,3,4) by blast
    next
      case ne: False
      have i: "0 \<le> i" "i < Rows t" using 1(3-) lt by simp_all
      let ?a = "entry t i pc"
      let ?row' = "map (\<lambda>(u, v). u + v) (zip (rowOf t i) (scaleSlice (rowOf t pr) (- ?a)))"
      have li: "length (rowOf t i) = nat (Cols t)" by (rule length_rowOf[OF wf i])
      have lp: "length (rowOf t pr) = nat (Cols t)" by (rule length_rowOf[OF wf pr])
      have add: "addSlices (rowOf t i) (scaleSlice (rowOf t pr) (- ?a)) = Inr ?row'"
        using li lp by (simp add: addSlices_def zipWithFloats_def scaleSlice_def mapFloats_def)
      have len: "int (length ?row') = Cols t"
        using li lp wf by (simp add: scaleSlice_def mapFloats_def wfTableau_def)
      obtain t1 where t1: "SetRow t i ?row' = Inr t1" "wfTableau t1" "Rows t1 = Rows t"
        "Cols t1 = Cols t"
        and ent1: "\<And>i' j. 0 \<le> i' \<Longrightarrow> i' < Rows t \<Longrightarrow> 0 \<le> j \<Longrightarrow> j < Cols t \<Longrightarrow>
          entry t1 i' j = (if i' = i then ?row' ! nat j else entry t i' j)"
        using SetRow_props[OF wf i len] by blast
      have row'nth: "?row' ! nat j = entry t i j + entry t pr j * (- ?a)"
        if "0 \<le> j" "j < Cols t" for j
      proof -
        have "nat j < nat (Cols t)" using that by simp
        then show ?thesis
          using li lp nth_rowOf[OF wf i that] nth_rowOf[OF wf pr that]
          by (simp add: scaleSlice_def mapFloats_def)
      qed
      have "\<exists>t'. elimRowsLoop t1 nrs pr pc (i + 1) = Inr t' \<and> wfTableau t' \<and> Rows t' = Rows t1
           \<and> Cols t' = Cols t1
           \<and> (\<forall>k j. 0 \<le> k \<longrightarrow> k < Rows t1 \<longrightarrow> 0 \<le> j \<longrightarrow> j < Cols t1 \<longrightarrow>
                 entry t' k j = (if k < i + 1 \<or> k = pr then entry t1 k j
                                 else entry t1 k j + entry t1 pr j * (- entry t1 k pc)))"
        using 1(2)[OF lt ne RawRowView_rowOf[OF pr] RawRowView_rowOf[OF i] At_entry[OF i pc]
            add t1(1)] t1(2,3,4) 1(3-) by simp
      then obtain t' where t': "elimRowsLoop t1 nrs pr pc (i + 1) = Inr t'" "wfTableau t'"
        "Rows t' = Rows t" "Cols t' = Cols t"
        and ent: "\<And>k j. 0 \<le> k \<Longrightarrow> k < Rows t \<Longrightarrow> 0 \<le> j \<Longrightarrow> j < Cols t \<Longrightarrow>
                 entry t' k j = (if k < i + 1 \<or> k = pr then entry t1 k j
                                 else entry t1 k j + entry t1 pr j * (- entry t1 k pc))"
        using t1(3,4) by auto
      have "elimRowsLoop t nrs pr pc i = Inr t'"
        using t'(1) elimRowsLoop_step[OF lt ne RawRowView_rowOf[OF pr] RawRowView_rowOf[OF i]
            At_entry[OF i pc] add t1(1)] by simp
      moreover have "entry t' k j = (if k < i \<or> k = pr then entry t k j
                                 else entry t k j + entry t pr j * (- entry t k pc))"
        if "0 \<le> k" "k < Rows t" "0 \<le> j" "j < Cols t" for k j
      proof -
        have e1: "entry t1 k j = (if k = i then ?row' ! nat j else entry t k j)"
          by (rule ent1[OF that])
        have e2: "entry t1 pr j = entry t pr j" using ent1[OF pr that(3,4)] ne by simp
        have e3: "entry t1 k pc = (if k = i then ?row' ! nat pc else entry t k pc)"
          by (rule ent1[OF that(1,2) pc])
        show ?thesis
          using ent[OF that] e1 e2 e3 row'nth[OF that(3,4)] ne by (auto simp del: map_eq_conv)
      qed
      ultimately show ?thesis using t'(2,3,4) by blast
    qed
  qed
qed



lemma At_InrD:
  assumes "At t i j = Inr v"
  shows "0 \<le> i" "i < Rows t" "0 \<le> j" "j < Cols t" "v = entry t i j"
  using assms by (auto simp: At_def entry_def split: if_splits)

lemma elimRows_props:
  assumes "wfTableau t" "0 \<le> pr" "pr < Rows t" "0 \<le> pc" "pc < Cols t"
  obtains t' where "elimRows t pr pc = Inr t'" "wfTableau t'" "Rows t' = Rows t"
    "Cols t' = Cols t"
    "\<And>k j. 0 \<le> k \<Longrightarrow> k < Rows t \<Longrightarrow> 0 \<le> j \<Longrightarrow> j < Cols t \<Longrightarrow>
       entry t' k j = (if k = pr then entry t k j
                       else entry t k j + entry t pr j * (- entry t k pc))"
proof -
  obtain t' where t': "elimRowsLoop t (Rows t) pr pc 0 = Inr t'" "wfTableau t'"
    "Rows t' = Rows t" "Cols t' = Cols t"
    and ent: "\<forall>k j. 0 \<le> k \<longrightarrow> k < Rows t \<longrightarrow> 0 \<le> j \<longrightarrow> j < Cols t \<longrightarrow>
       entry t' k j = (if k < 0 \<or> k = pr then entry t k j
                       else entry t k j + entry t pr j * (- entry t k pc))"
    using elimRowsLoop_props[OF assms(1) refl assms(2-5), of 0] by auto
  have 1: "elimRows t pr pc = Inr t'"
    using t'(1) by (simp add: elimRows_def Dims_def RawRowView_rowOf[OF assms(2,3)])
  have 5: "entry t' k j = (if k = pr then entry t k j
                       else entry t k j + entry t pr j * (- entry t k pc))"
    if "0 \<le> k" "k < Rows t" "0 \<le> j" "j < Cols t" for k j
    using ent that by auto
  show ?thesis using that[OF 1 t'(2,3,4) 5] by simp
qed

section \<open>Construction of the tableau\<close>

lemma NewTableauRows_ok:
  "\<forall>c \<in> set cs. length (Coefficients c) = length ob \<Longrightarrow>
   NewTableauRows m ob i cs vecs = Inr (vecs @ tableauRowsFrom m i cs)"
  by (induction cs arbitrary: i vecs) (simp_all add: Let_def)

lemma NewTableauRows_mismatch:
  "\<exists>c \<in> set cs. length (Coefficients c) \<noteq> length ob \<Longrightarrow>
   NewTableauRows m ob i cs vecs = Inl ErrCoefficientLength"
  by (induction cs arbitrary: i vecs) (auto simp: Let_def)

lemma length_tableauRowsFrom:
  "\<forall>c \<in> set cs. length (Coefficients c) = n \<Longrightarrow>
   length (tableauRowsFrom m i cs) = length cs * (n + m + 1)"
  by (induction cs arbitrary: i) simp_all

lemma NewTableau_ok:
  assumes "\<forall>c \<in> set cs. length (Coefficients c) = length ob"
  shows "NewTableau cs ob =
     Inr \<lparr>Rows = int (length cs) + 1, Cols = int (length ob) + int (length cs) + 1,
          Data = tableauRowsFrom (length cs) 0 cs @ (ob @ replicate (length cs + 1) 0)\<rparr>"
proof -
  have "(int (length cs) + 1) * (int (length ob) + int (length cs) + 1)
        = int (length (tableauRowsFrom (length cs) 0 cs @ (ob @ replicate (length cs + 1) 0)))"
    using length_tableauRowsFrom[OF assms, of "length cs" 0] by (simp add: algebra_simps)
  then show ?thesis
    using NewTableauRows_ok[OF assms, of "length cs" 0 "[]"]
    by (simp add: NewTableau_def NewDense_def del: of_nat_add of_nat_mult length_append)
qed

section \<open>Appending to a slice\<close>

lemma length_sliceElems: "sliceOk h s \<Longrightarrow> length (sliceElems h s) = Len s"
  by (auto simp: sliceElems_def sliceOk_def)

lemma appendSlice_length:
  assumes "sliceOk h s" "appendSlice h s xs = (h', ys)"
  shows "length (h' a) = length (h a)" and "ys = sliceElems h s @ xs"
  using assms by (auto simp: appendSlice_def sliceOk_def split: if_splits)

lemma appendSlice_sliceOk:
  assumes "sliceOk h s" "appendSlice h s xs = (h', ys)"
  shows "sliceOk h' s' \<longleftrightarrow> sliceOk h s'"
  using appendSlice_length(1)[OF assms] by (simp add: sliceOk_def)

lemma take_drop_cong:
  assumes "length B = length A" "n + k \<le> length A"
    and "\<And>p. n \<le> p \<Longrightarrow> p < n + k \<Longrightarrow> B ! p = A ! p"
  shows "take k (drop n B) = take k (drop n A)"
proof (rule nth_equalityI)
  show "length (take k (drop n B)) = length (take k (drop n A))" using assms(1) by simp
  fix i assume "i < length (take k (drop n B))"
  then have i: "i < k" by simp
  have "drop n B ! i = B ! (n + i)" using assms(1,2) i by (intro nth_drop) simp
  moreover have "drop n A ! i = A ! (n + i)" using assms(2) i by (intro nth_drop) simp
  ultimately show "take k (drop n B) ! i = take k (drop n A) ! i"
    using i assms(3)[of "n + i"] by simp
qed

lemma nth_overwrite_outside:
  assumes le: "a + length xs \<le> length A" and out: "p < a \<or> a + length xs \<le> p"
  shows "(take a A @ xs @ drop (a + length xs) A) ! p = A ! p"
proof (cases "p < a")
  case True
  then show ?thesis using le by (simp add: nth_append)
next
  case False
  then have ge: "a + length xs \<le> p" using out by simp
  have l1: "length (take a A) = a" using le by simp
  have "(take a A @ xs @ drop (a + length xs) A) ! p = (xs @ drop (a + length xs) A) ! (p - a)"
    using False l1 by (simp add: nth_append)
  also have "\<dots> = drop (a + length xs) A ! (p - a - length xs)"
    using ge by (subst nth_append) auto
  also have "\<dots> = A ! (a + length xs + (p - a - length xs))"
    using le by (intro nth_drop) simp
  finally show ?thesis using ge by simp
qed

lemma appendSlice_clear:
  assumes s: "sliceOk h s" and ob: "sliceOk h ob" and ap: "appendSlice h s xs = (h', ys)"
    and cl: "appendClearOf s (length xs) ob"
  shows "sliceElems h' ob = sliceElems h ob"
proof (cases "Len s + length xs \<le> Cap s \<and> Arr s = Arr ob")
  case False
  then show ?thesis using ap by (auto simp: appendSlice_def sliceElems_def split: if_splits)
next
  case True
  define A where "A = h (Arr s)"
  define a where "a = Off s + Len s"
  define A' where "A' = take a A @ xs @ drop (a + length xs) A"
  have h': "h' (Arr ob) = A'" using ap True by (auto simp: appendSlice_def A'_def A_def a_def)
  have le: "a + length xs \<le> length A" using s True by (simp add: sliceOk_def A_def a_def)
  have len: "length A' = length A" using le by (simp add: A'_def)
  have obl: "Off ob + Len ob \<le> length A" using ob True by (simp add: sliceOk_def A_def)
  have dis: "a + length xs \<le> Off ob \<or> Off ob + Len ob \<le> a"
    using cl True by (auto simp: appendClearOf_def a_def)
  have nth: "A' ! p = A ! p" if "Off ob \<le> p" "p < Off ob + Len ob" for p
    unfolding A'_def using dis that by (intro nth_overwrite_outside[OF le]) linarith
  have "take (Len ob) (drop (Off ob) A') = take (Len ob) (drop (Off ob) A)"
    by (rule take_drop_cong[OF len obl nth])
  then show ?thesis using h' True by (simp add: sliceElems_def A_def)
qed

section \<open>Construction on the caller's backing arrays: the loop\<close>

lemma NewTableauRowsHeap_props:
  assumes "\<forall>c \<in> set cs. sliceOk h (CoefficientsRef c)" "sliceOk h ob"
    and "\<forall>c \<in> set cs. Len (CoefficientsRef c) = Len ob"
    and "\<forall>c \<in> set cs. appendClearOf (CoefficientsRef c) (m + 1) ob"
  shows "\<exists>h' rest. NewTableauRowsHeap h m ob i cs vecs = (h', Inr (vecs @ rest))
           \<and> length rest = length cs * (Len ob + m + 1)
           \<and> sliceElems h' ob = sliceElems h ob \<and> sliceOk h' ob"
  using assms
proof (induction cs arbitrary: h i vecs)
  case Nil
  then show ?case by simp
next
  case (Cons c cs)
  let ?s = "CoefficientsRef c"
  let ?xs = "(replicate m 0)[i := 1] @ [RightHandSideRef c]"
  obtain h1 row where ap: "appendSlice h ?s ?xs = (h1, row)" by (cases "appendSlice h ?s ?xs")
  have sok: "sliceOk h ?s" and len: "Len ?s = Len ob" using Cons.prems by simp_all
  have lx: "length ?xs = m + 1" by simp
  have row: "row = sliceElems h ?s @ ?xs" by (rule appendSlice_length(2)[OF sok ap])
  have lrow: "length row = Len ob + m + 1"
    unfolding row using length_sliceElems[OF sok] len by simp
  have ok1: "sliceOk h1 s' \<longleftrightarrow> sliceOk h s'" for s' by (rule appendSlice_sliceOk[OF sok ap])
  have "appendClearOf ?s (length ?xs) ob" using Cons.prems(4) lx by simp
  then have el: "sliceElems h1 ob = sliceElems h ob"
    by (rule appendSlice_clear[OF sok Cons.prems(2) ap])
  have "\<exists>h' rest. NewTableauRowsHeap h1 m ob (i + 1) cs (vecs @ row) = (h', Inr ((vecs @ row) @ rest))
           \<and> length rest = length cs * (Len ob + m + 1)
           \<and> sliceElems h' ob = sliceElems h1 ob \<and> sliceOk h' ob"
    using Cons.prems by (intro Cons.IH) (simp_all add: ok1)
  then obtain h' rest where r: "NewTableauRowsHeap h1 m ob (i + 1) cs (vecs @ row) = (h', Inr ((vecs @ row) @ rest))"
    "length rest = length cs * (Len ob + m + 1)" "sliceElems h' ob = sliceElems h1 ob" "sliceOk h' ob"
    by blast
  have "NewTableauRowsHeap h m ob i (c # cs) vecs = (h', Inr (vecs @ (row @ rest)))"
    using r(1) ap len by (simp add: Let_def)
  moreover have "length (row @ rest) = length (c # cs) * (Len ob + m + 1)"
    using lrow r(2) by simp
  ultimately show ?case using r(3,4) el
    by (intro exI[of _ h'] exI[of _ "row @ rest"]) simp
qed

lemma NewTableauRowsHeap_allocating:
  assumes "\<forall>c \<in> set cs. sliceOk h (CoefficientsRef c)" "sliceOk h ob"
    and "\<forall>c \<in> set cs. Cap (CoefficientsRef c) < Len (CoefficientsRef c) + (m + 1)"
  shows "NewTableauRowsHeap h m ob i cs vecs
         = (h, NewTableauRows m (sliceElems h ob) i (map (constraintValue h) cs) vecs)"
  using assms
proof (induction cs arbitrary: i vecs)
  case Nil
  then show ?case by simp
next
  case (Cons c cs)
  let ?s = "CoefficientsRef c"
  let ?xs = "(replicate m 0)[i := 1] @ [RightHandSideRef c]"
  have sok: "sliceOk h ?s" using Cons.prems by simp
  have "\<not> Len ?s + length ?xs \<le> Cap ?s" using Cons.prems(3) by simp
  then have ap: "appendSlice h ?s ?xs = (h, sliceElems h ?s @ ?xs)" by (simp add: appendSlice_def)
  have ih: "NewTableauRowsHeap h m ob (i + 1) cs (vecs @ sliceElems h ?s @ ?xs)
        = (h, NewTableauRows m (sliceElems h ob) (i + 1) (map (constraintValue h) cs)
                (vecs @ sliceElems h ?s @ ?xs))"
    using Cons.prems by (intro Cons.IH) simp_all
  have cv: "Coefficients (constraintValue h c) = sliceElems h ?s"
    "RightHandSide (constraintValue h c) = RightHandSideRef c"
    by (simp_all add: constraintValue_def)
  show ?case
    using ap ih length_sliceElems[OF sok] length_sliceElems[OF Cons.prems(2)]
    by (simp add: Let_def cv)
qed

lemma NewTableauHeap_allocating:
  assumes "\<forall>c \<in> set cs. sliceOk h (CoefficientsRef c)" "sliceOk h ob"
    and "\<forall>c \<in> set cs. Cap (CoefficientsRef c) < Len (CoefficientsRef c) + (length cs + 1)"
  shows "snd (NewTableauHeap h cs ob) = NewTableau (map (constraintValue h) cs) (sliceElems h ob)"
proof -
  have r: "NewTableauRowsHeap h (length cs) ob 0 cs []
        = (h, NewTableauRows (length cs) (sliceElems h ob) 0 (map (constraintValue h) cs) [])"
    by (rule NewTableauRowsHeap_allocating[OF assms])
  obtain h2 lastRow where ap: "appendSlice h ob (replicate (length cs + 1) 0) = (h2, lastRow)"
    by (cases "appendSlice h ob (replicate (length cs + 1) 0)")
  have lastRow: "lastRow = sliceElems h ob @ replicate (length cs + 1) 0"
    by (rule appendSlice_length(2)[OF assms(2) ap])
  show ?thesis
    using r ap lastRow length_sliceElems[OF assms(2)]
    by (simp add: NewTableauHeap_def NewTableau_def split: sum.splits)
qed

section \<open>Selection of the pivot\<close>

lemma all_below_succ:
  fixes i :: int
  assumes "0 \<le> i"
  shows "(\<forall>k. 0 \<le> k \<and> k < i + 1 \<longrightarrow> P k) \<longleftrightarrow> (\<forall>k. 0 \<le> k \<and> k < i \<longrightarrow> P k) \<and> P i"
proof -
  have "k < i + 1 \<longleftrightarrow> k < i \<or> k = i" for k by linarith
  then show ?thesis using assms by auto
qed

lemma negMinInv_step:
  assumes inv: "negMinInv vec i mi mv" and i: "0 \<le> i"
  shows "vec ! nat i < mv \<Longrightarrow> negMinInv vec (i + 1) i (vec ! nat i)"
    and "\<not> vec ! nat i < mv \<Longrightarrow> negMinInv vec (i + 1) mi mv"
proof -
  {
    assume lt: "vec ! nat i < mv"
    show "negMinInv vec (i + 1) i (vec ! nat i)"
      using inv lt i unfolding negMinInv_def all_below_succ[OF i]
      by (elim disjE) force+
  }
  {
    assume ge: "\<not> vec ! nat i < mv"
    show "negMinInv vec (i + 1) mi mv"
      using inv ge i unfolding negMinInv_def all_below_succ[OF i]
      by (elim disjE) force+
  }
qed

lemma negMinIdxLoop_inv:
  assumes "negMinInv vec i mi mv" "0 \<le> i" "i \<le> int (length vec) - 1"
  shows "\<exists>mi' mv'. negMinIdxLoop vec i mi mv = Inr mi' \<and> negMinInv vec (int (length vec) - 1) mi' mv'"
  using assms
proof (induction vec i mi mv rule: negMinIdxLoop.induct)
  case (1 vec i mi mv)
  show ?case
  proof (cases "i < int (length vec) - 1")
    case False
    then have "i = int (length vec) - 1" using 1(5) by simp
    moreover have "negMinIdxLoop vec i mi mv = Inr mi"
      using False by (subst negMinIdxLoop.simps) simp
    ultimately show ?thesis using 1(3) by auto
  next
    case True
    have at: "AtVec vec i = Inr (vec ! nat i)" using True 1(4) by (simp add: AtVec_def)
    show ?thesis
    proof (cases "vec ! nat i < mv")
      case lt: True
      have "negMinIdxLoop vec i mi mv = negMinIdxLoop vec (i + 1) i (vec ! nat i)"
        using True at lt by (subst negMinIdxLoop.simps) simp
      then show ?thesis
        using 1(1)[OF True at lt negMinInv_step(1)[OF 1(3,4) lt]] True 1(4) by simp
    next
      case ge: False
      have "negMinIdxLoop vec i mi mv = negMinIdxLoop vec (i + 1) mi mv"
        using True at ge by (subst negMinIdxLoop.simps) simp
      then show ?thesis
        using 1(2)[OF True at ge negMinInv_step(2)[OF 1(3,4) ge]] True 1(4) by simp
    qed
  qed
qed

lemma negMinIdx_inv:
  "\<exists>mi mv. negMinIdx vec = Inr mi \<and> negMinInv vec (max 0 (int (length vec) - 1)) mi mv"
proof (cases "vec = []")
  case True
  then have "negMinIdx vec = Inr (- 1)"
    unfolding negMinIdx_def by (subst negMinIdxLoop.simps) simp
  then show ?thesis using True by (auto simp: negMinInv_def)
next
  case False
  then have l: "0 \<le> int (length vec) - 1" by (cases vec) simp_all
  have "negMinInv vec 0 (- 1) 0" by (simp add: negMinInv_def)
  from negMinIdxLoop_inv[OF this _ l] show ?thesis using l by (simp add: negMinIdx_def max_def)
qed



lemma pivotRowInv_keep:
  assumes inv: "pivotRowInv t pc r pr minq" and r: "0 \<le> r"
    and no: "\<not> (positiveRatio t pc r \<and> ratio t r pc < minq)"
  shows "pivotRowInv t pc (r + 1) pr minq"
  using inv no r unfolding pivotRowInv_def all_below_succ[OF r]
  by (elim disjE) force+

lemma pivotRowInv_take:
  assumes inv: "pivotRowInv t pc r pr minq" and r: "0 \<le> r"
    and yes: "positiveRatio t pc r" "ratio t r pc < minq"
  shows "pivotRowInv t pc (r + 1) r (ratio t r pc)"
proof -
  have lt: "ratio t r pc < MaxFloat64" using inv yes(2) unfolding pivotRowInv_def by auto
  have a: "ratio t r pc \<le> ratio t k pc" if "0 \<le> k \<and> k < r" "positiveRatio t pc k" for k
    using inv yes that lt unfolding pivotRowInv_def by (elim disjE) force+
  have b: "ratio t r pc < ratio t k pc" if "0 \<le> k \<and> k < r" "positiveRatio t pc k" for k
    using inv yes that lt unfolding pivotRowInv_def by (elim disjE) force+
  show ?thesis
    unfolding pivotRowInv_def all_below_succ[OF r] using r yes lt a b by auto
qed

lemma pivotRowLoop_inv:
  assumes "pivotRowInv t pc r pr minq" "0 \<le> r" "r \<le> nrs - 1" "nrs = Rows t" "ncs = Cols t"
    "0 \<le> pc" "pc < Cols t"
  shows "\<exists>pr' minq'. pivotRowLoop t nrs ncs pc r pr minq = Inr pr'
            \<and> pivotRowInv t pc (nrs - 1) pr' minq'"
  using assms
proof (induction t nrs ncs pc r pr minq rule: pivotRowLoop.induct)
  case (1 t nrs ncs pc r pr minq)
  note inv = \<open>pivotRowInv t pc r pr minq\<close> and r0 = \<open>0 \<le> r\<close>
  show ?case
  proof (cases "r < nrs - 1")
    case False
    then have "r = nrs - 1" using 1(6) by simp
    moreover have "pivotRowLoop t nrs ncs pc r pr minq = Inr pr"
      using False by (subst pivotRowLoop.simps) simp
    ultimately show ?thesis using inv by auto
  next
    case True
    have rr: "r < Rows t" using True 1(7) by simp
    have le: "r + 1 \<le> nrs - 1" "0 \<le> r + 1" using True r0 by simp_all
    have at: "At t r pc = Inr (entry t r pc)" using At_entry[OF r0 rr 1(9,10)] .
    have lc: "0 \<le> Cols t - 1" "Cols t - 1 < Cols t" using 1(9,10) by simp_all
    have atb: "At t r (ncs - 1) = Inr (entry t r (Cols t - 1))"
      using At_entry[OF r0 rr lc] 1(8) by simp
    show ?thesis
    proof (cases "entry t r pc = 0")
      case z: True
      have eq: "pivotRowLoop t nrs ncs pc r pr minq = pivotRowLoop t nrs ncs pc (r + 1) pr minq"
        using True at z by (subst pivotRowLoop.simps) simp
      have "pivotRowInv t pc (r + 1) pr minq"
        using pivotRowInv_keep[OF inv r0] z by (simp add: positiveRatio_def)
      from 1(1)[OF True at z this le(2,1) 1(7-10)] eq show ?thesis by simp
    next
      case nz: False
      have rq: "ratio t r pc = entry t r (Cols t - 1) / entry t r pc" by (simp add: ratio_def)
      show ?thesis
      proof (cases "ratio t r pc < minq \<and> 0 < ratio t r pc")
        case tk: True
        have eq: "pivotRowLoop t nrs ncs pc r pr minq
                  = pivotRowLoop t nrs ncs pc (r + 1) r (ratio t r pc)"
          using True at atb nz tk by (subst pivotRowLoop.simps) (simp add: ratio_def Let_def)
        have "pivotRowInv t pc (r + 1) r (ratio t r pc)"
          using pivotRowInv_take[OF inv r0] nz tk by (simp add: positiveRatio_def)
        from 1(2)[OF True at nz atb refl tk[unfolded rq] this[unfolded rq] le(2,1) 1(7-10)] eq
        show ?thesis by (simp add: ratio_def)
      next
        case kp: False
        have eq: "pivotRowLoop t nrs ncs pc r pr minq
                  = pivotRowLoop t nrs ncs pc (r + 1) pr minq"
          using True at atb nz kp by (subst pivotRowLoop.simps) (auto simp: ratio_def Let_def)
        have "pivotRowInv t pc (r + 1) pr minq"
          using pivotRowInv_keep[OF inv r0] kp by (auto simp: positiveRatio_def)
        from 1(3)[OF True at nz atb refl kp[unfolded rq] this le(2,1) 1(7-10)] eq
        show ?thesis by simp
      qed
    qed
  qed
qed



lemma pivotIdxs_column:
  assumes wf: "wfTableau t" and rows: "1 \<le> Rows t"
    and neg: "\<exists>j. 0 \<le> j \<and> j < Cols t - 1 \<and> entry t (Rows t - 1) j < 0"
  shows "\<exists>pc. negMinIdx (rowOf t (Rows t - 1)) = Inr pc \<and> 0 \<le> pc \<and> pc < Cols t - 1
    \<and> entry t (Rows t - 1) pc < 0
    \<and> (\<forall>j. 0 \<le> j \<and> j < Cols t - 1 \<longrightarrow> entry t (Rows t - 1) pc \<le> entry t (Rows t - 1) j)
    \<and> (\<forall>j. 0 \<le> j \<and> j < pc \<longrightarrow> entry t (Rows t - 1) pc < entry t (Rows t - 1) j)"
proof -
  let ?i = "Rows t - 1"
  let ?vec = "rowOf t ?i"
  have i: "0 \<le> ?i" "?i < Rows t" using rows by simp_all
  have len: "length ?vec = nat (Cols t)" by (rule length_rowOf[OF wf i])
  have nth: "?vec ! nat j = entry t ?i j" if "0 \<le> j" "j < Cols t - 1" for j
    using nth_rowOf[OF wf i, of j] that by simp
  obtain j0 where j0: "0 \<le> j0" "j0 < Cols t - 1" "entry t ?i j0 < 0" using neg by blast
  have m: "max 0 (int (length ?vec) - 1) = Cols t - 1" using len j0 by simp
  obtain mi mv where mi: "negMinIdx ?vec = Inr mi" and inv: "negMinInv ?vec (Cols t - 1) mi mv"
    using negMinIdx_inv[of ?vec] unfolding m by blast
  have "\<not> (\<forall>k. 0 \<le> k \<and> k < Cols t - 1 \<longrightarrow> 0 \<le> ?vec ! nat k)"
    using j0 nth[OF j0(1,2)] by force
  then have p: "0 \<le> mi" "mi < Cols t - 1" "mv = ?vec ! nat mi" "mv < 0"
    "\<forall>k. 0 \<le> k \<and> k < Cols t - 1 \<longrightarrow> mv \<le> ?vec ! nat k"
    "\<forall>k. 0 \<le> k \<and> k < mi \<longrightarrow> mv < ?vec ! nat k"
    using inv unfolding negMinInv_def by blast+
  have mv: "mv = entry t ?i mi" using p(3) nth[OF p(1,2)] by simp
  have a: "entry t ?i mi \<le> entry t ?i j" if "0 \<le> j" "j < Cols t - 1" for j
    using p(5) that nth[OF that] mv by auto
  have b: "entry t ?i mi < entry t ?i j" if "0 \<le> j" "j < mi" for j
  proof -
    have "j < Cols t - 1" using that p(2) by simp
    then show ?thesis using p(6) that nth[OF that(1)] mv by auto
  qed
  show ?thesis using mi p(1,2,4) mv a b by auto
qed

lemma pivotIdxs_props:
  assumes wf: "wfTableau t" and rows: "1 \<le> Rows t"
    and neg: "\<exists>j. 0 \<le> j \<and> j < Cols t - 1 \<and> entry t (Rows t - 1) j < 0"
  shows "\<exists>pr pc. pivotIdxs t = Inr (pr, pc)
     \<and> 0 \<le> pc \<and> pc < Cols t - 1 \<and> entry t (Rows t - 1) pc < 0
     \<and> (\<forall>j. 0 \<le> j \<and> j < Cols t - 1 \<longrightarrow> entry t (Rows t - 1) pc \<le> entry t (Rows t - 1) j)
     \<and> (\<forall>j. 0 \<le> j \<and> j < pc \<longrightarrow> entry t (Rows t - 1) pc < entry t (Rows t - 1) j)
     \<and> (pr = - 1 \<longleftrightarrow>
          \<not> (\<exists>r. 0 \<le> r \<and> r < Rows t - 1 \<and> positiveRatio t pc r \<and> ratio t r pc < MaxFloat64))
     \<and> (pr \<noteq> - 1 \<longrightarrow>
          0 \<le> pr \<and> pr < Rows t - 1 \<and> positiveRatio t pc pr \<and> ratio t pr pc < MaxFloat64
          \<and> (\<forall>r. 0 \<le> r \<and> r < Rows t - 1 \<and> positiveRatio t pc r \<longrightarrow> ratio t pr pc \<le> ratio t r pc)
          \<and> (\<forall>r. 0 \<le> r \<and> r < pr \<and> positiveRatio t pc r \<longrightarrow> ratio t pr pc < ratio t r pc))"
proof -
  obtain pc where pc: "negMinIdx (rowOf t (Rows t - 1)) = Inr pc" "0 \<le> pc" "pc < Cols t - 1"
      "entry t (Rows t - 1) pc < 0"
    and c: "\<forall>j. 0 \<le> j \<and> j < Cols t - 1 \<longrightarrow> entry t (Rows t - 1) pc \<le> entry t (Rows t - 1) j"
    and d: "\<forall>j. 0 \<le> j \<and> j < pc \<longrightarrow> entry t (Rows t - 1) pc < entry t (Rows t - 1) j"
    using pivotIdxs_column[OF assms] by blast
  have pcc: "pc < Cols t" using pc(3) by simp
  have inv0: "pivotRowInv t pc 0 (- 1) MaxFloat64" by (auto simp: pivotRowInv_def)
  have r0: "(0::int) \<le> Rows t - 1" using rows by simp
  obtain pr minq where pr: "pivotRowLoop t (Rows t) (Cols t) pc 0 (- 1) MaxFloat64 = Inr pr"
    and inv: "pivotRowInv t pc (Rows t - 1) pr minq"
    using pivotRowLoop_inv[OF inv0 _ r0 refl refl pc(2) pcc] by auto
  have 1: "pivotIdxs t = Inr (pr, pc)"
    using pc(1) pr rows
    by (simp add: pivotIdxs_def Dims_def RowView_def RawRowView_rowOf)
  let ?elig = "\<lambda>r. 0 \<le> r \<and> r < Rows t - 1 \<and> positiveRatio t pc r \<and> ratio t r pc < MaxFloat64"
  from inv consider
    (none) "pr = - 1"
      "\<forall>k. 0 \<le> k \<and> k < Rows t - 1 \<longrightarrow> \<not> (positiveRatio t pc k \<and> ratio t k pc < MaxFloat64)"
  | (some) "0 \<le> pr" "pr < Rows t - 1" "positiveRatio t pc pr" "ratio t pr pc < MaxFloat64"
      "\<forall>k. 0 \<le> k \<and> k < Rows t - 1 \<longrightarrow> (positiveRatio t pc k \<longrightarrow> ratio t pr pc \<le> ratio t k pc)"
      "\<forall>k. 0 \<le> k \<and> k < pr \<longrightarrow> (positiveRatio t pc k \<longrightarrow> ratio t pr pc < ratio t k pc)"
    unfolding pivotRowInv_def by blast
  then have 2: "(pr = - 1 \<longleftrightarrow> \<not> (\<exists>r. ?elig r))
     \<and> (pr \<noteq> - 1 \<longrightarrow>
          0 \<le> pr \<and> pr < Rows t - 1 \<and> positiveRatio t pc pr \<and> ratio t pr pc < MaxFloat64
          \<and> (\<forall>r. 0 \<le> r \<and> r < Rows t - 1 \<and> positiveRatio t pc r \<longrightarrow> ratio t pr pc \<le> ratio t r pc)
          \<and> (\<forall>r. 0 \<le> r \<and> r < pr \<and> positiveRatio t pc r \<longrightarrow> ratio t pr pc < ratio t r pc))"
  proof cases
    case none
    then show ?thesis by blast
  next
    case some
    have "pr \<noteq> - 1" using some(1) by simp
    moreover have "\<exists>r. ?elig r" using some(1-4) by blast
    ultimately show ?thesis using some by blast
  qed
  show ?thesis
    apply (rule exI[of _ pr], rule exI[of _ pc])
    using 1 pc(2,3,4) c d 2 by (intro conjI) simp_all
qed

lemma isSolvedLoop_iff: "isSolvedLoop vs \<longleftrightarrow> (\<forall>v \<in> set vs. 0 \<le> v)"
  by (induction vs) auto

lemma isSolved_whole_row:
  assumes "1 \<le> Rows t"
  shows "isSolved t = Inr (\<forall>v \<in> set (rowOf t (Rows t - 1)). 0 \<le> v)"
  using assms by (simp add: isSolved_def Dims_def RawRowView_rowOf isSolvedLoop_iff)

lemma not_solved_negative_entry:
  assumes wf: "wfTableau t" and rows: "1 \<le> Rows t" and ns: "isSolved t = Inr False"
  shows "\<exists>j. 0 \<le> j \<and> j < Cols t \<and> entry t (Rows t - 1) j < 0"
proof -
  have i: "0 \<le> Rows t - 1" "Rows t - 1 < Rows t" using rows by simp_all
  have "\<not> (\<forall>v \<in> set (rowOf t (Rows t - 1)). 0 \<le> v)"
    using ns isSolved_whole_row[OF rows] by simp
  then obtain v where v: "v \<in> set (rowOf t (Rows t - 1))" "v < 0" by force
  then obtain k where k: "k < length (rowOf t (Rows t - 1))" "rowOf t (Rows t - 1) ! k = v"
    by (auto simp: in_set_conv_nth)
  have kc: "int k < Cols t" using k(1) length_rowOf[OF wf i] by simp
  have "rowOf t (Rows t - 1) ! nat (int k) = entry t (Rows t - 1) (int k)"
    by (rule nth_rowOf[OF wf i _ kc]) simp
  then have "entry t (Rows t - 1) (int k) < 0" using k(2) v(2) by simp
  then show ?thesis using kc by (intro exI[of _ "int k"]) simp
qed

section \<open>Rows as linear equations\<close>

lemma scaleAndElim_props:
  assumes wf: "wfTableau t" and piv: "pivotIdxs t = Inr (pr, pc)"
    and pr: "0 \<le> pr" "pr < Rows t" and pc: "0 \<le> pc" "pc < Cols t"
    and pe: "entry t pr pc \<noteq> 0"
  shows "\<exists>t'. scaleAndElim t = Inr t' \<and> wfTableau t' \<and> Rows t' = Rows t \<and> Cols t' = Cols t
    \<and> (\<forall>k j. 0 \<le> k \<and> k < Rows t \<and> 0 \<le> j \<and> j < Cols t \<longrightarrow>
          entry t' k j = (if k = pr then entry t pr j / entry t pr pc
                          else entry t k j - entry t k pc * (entry t pr j / entry t pr pc)))"
proof -
  obtain t1 where t1: "scalePivotRow t pr pc = Inr t1" "wfTableau t1" "Rows t1 = Rows t"
    "Cols t1 = Cols t"
    and e1: "\<And>i j. 0 \<le> i \<Longrightarrow> i < Rows t \<Longrightarrow> 0 \<le> j \<Longrightarrow> j < Cols t \<Longrightarrow>
        entry t1 i j = (if i = pr then entry t pr j * (1 / entry t pr pc) else entry t i j)"
    using scalePivotRow_props[OF wf pr pc pe] by blast
  have r1: "pr < Rows t1" and c1: "pc < Cols t1" using t1 pr pc by simp_all
  obtain t2 where t2: "elimRows t1 pr pc = Inr t2" "wfTableau t2" "Rows t2 = Rows t1"
    "Cols t2 = Cols t1"
    and e2: "\<And>k j. 0 \<le> k \<Longrightarrow> k < Rows t1 \<Longrightarrow> 0 \<le> j \<Longrightarrow> j < Cols t1 \<Longrightarrow>
       entry t2 k j = (if k = pr then entry t1 k j
                       else entry t1 k j + entry t1 pr j * (- entry t1 k pc))"
    using elimRows_props[OF t1(2) pr(1) r1 pc(1) c1] by blast
  have 1: "scaleAndElim t = Inr t2" using piv t1(1) t2(1) by (simp add: scaleAndElim_def)
  have 2: "entry t2 k j = (if k = pr then entry t pr j / entry t pr pc
                          else entry t k j - entry t k pc * (entry t pr j / entry t pr pc))"
    if "0 \<le> k \<and> k < Rows t \<and> 0 \<le> j \<and> j < Cols t" for k j
  proof -
    have a: "entry t2 k j = (if k = pr then entry t1 k j
                       else entry t1 k j + entry t1 pr j * (- entry t1 k pc))"
      using e2[of k j] that t1 by simp
    have b: "entry t1 pr j = entry t pr j / entry t pr pc" using e1[of pr j] that pr by simp
    have c: "k \<noteq> pr \<Longrightarrow> entry t1 k j = entry t k j" using e1[of k j] that by simp
    have d: "k \<noteq> pr \<Longrightarrow> entry t1 k pc = entry t k pc" using e1[of k pc] that pc by simp
    show ?thesis using a b c d by (simp add: algebra_simps)
  qed
  show ?thesis using 1 t2(2,3,4) t1(3,4) 2 by auto
qed

lemma residual_pivot:
  assumes cols: "1 \<le> Cols t" "Cols t' = Cols t"
    and k: "0 \<le> k" "k < Rows t"
    and ent: "\<forall>k j. 0 \<le> k \<and> k < Rows t \<and> 0 \<le> j \<and> j < Cols t \<longrightarrow>
          entry t' k j = (if k = pr then entry t pr j / pe
                          else entry t k j - entry t k pc * (entry t pr j / pe))"
  shows "residual t' k y = (if k = pr then residual t pr y / pe
                            else residual t k y - entry t k pc * (residual t pr y / pe))"
proof -
  have n: "nVars t' = nVars t" using cols by (simp add: nVars_def)
  have e: "entry t' k (int j) = (if k = pr then entry t pr (int j) / pe
                          else entry t k (int j) - entry t k pc * (entry t pr (int j) / pe))"
    if "j < nVars t" for j
    using ent k that cols by (simp add: nVars_def)
  have r: "rhs t' k = (if k = pr then rhs t pr / pe else rhs t k - entry t k pc * (rhs t pr / pe))"
    using ent k cols by (simp add: rhs_def)
  show ?thesis
  proof (cases "k = pr")
    case True
    have e': "entry t' pr (int j) = entry t pr (int j) / pe" if "j < nVars t" for j
      using e[OF that] True by simp
    have "rowSum t' k y = (\<Sum>j<nVars t. entry t pr (int j) * y j) / pe"
      unfolding rowSum_def n sum_divide_distrib True by (intro sum.cong refl) (simp add: e')
    then show ?thesis using True r by (simp add: residual_def rowSum_def diff_divide_distrib)
  next
    case False
    have e': "entry t' k (int j) = entry t k (int j) - entry t k pc * (entry t pr (int j) / pe)"
      if "j < nVars t" for j
      using e[OF that] False by simp
    have "rowSum t' k y = (\<Sum>j<nVars t. entry t k (int j) * y j
              - entry t k pc * (entry t pr (int j) * y j / pe))"
      unfolding rowSum_def n by (intro sum.cong refl) (simp add: e' algebra_simps)
    also have "\<dots> = rowSum t k y - entry t k pc * (rowSum t pr y / pe)"
      by (simp add: rowSum_def sum_subtractf sum_distrib_left sum_divide_distrib)
    finally show ?thesis using False r by (simp add: residual_def algebra_simps diff_divide_distrib)
  qed
qed

lemma rowSum_basicPoint:
  assumes b: "basisOf t \<beta>" and pc: "pc < nVars t" and i: "0 \<le> i" "i < Rows t"
  shows "rowSum t i (basicPoint (Rows t - 1) \<beta> w pc l)
         = (if i < Rows t - 1 then w i else 0) + l * entry t i (int pc)"
proof -
  let ?m = "Rows t - 1"
  let ?n = "nVars t"
  have br: "\<beta> r < ?n" if "r \<in> {0..<?m}" for r using b that by (simp add: basisOf_def)
  have unit: "entry t i (int (\<beta> r)) = (if i = r then 1 else 0)" if "r \<in> {0..<?m}" for r
    using b that i by (simp add: basisOf_def)
  have "rowSum t i (basicPoint ?m \<beta> w pc l)
        = (\<Sum>j<?n. \<Sum>r \<in> {0..<?m}. if \<beta> r = j then entry t i (int j) * w r else 0)
          + (\<Sum>j<?n. if j = pc then entry t i (int j) * l else 0)"
    unfolding rowSum_def basicPoint_def
    by (simp add: distrib_left sum.distrib sum_distrib_left if_distrib[of "\<lambda>x. _ * x"] cong: if_cong)
  also have "(\<Sum>j<?n. if j = pc then entry t i (int j) * l else 0) = l * entry t i (int pc)"
    using pc by (simp add: sum.delta')
  also have "(\<Sum>j<?n. \<Sum>r \<in> {0..<?m}. if \<beta> r = j then entry t i (int j) * w r else 0)
        = (\<Sum>r \<in> {0..<?m}. \<Sum>j<?n. if \<beta> r = j then entry t i (int j) * w r else 0)"
    by (rule sum.swap)
  also have "\<dots> = (\<Sum>r \<in> {0..<?m}. entry t i (int (\<beta> r)) * w r)"
    by (intro sum.cong refl) (simp add: br)
  also have "\<dots> = (\<Sum>r \<in> {0..<?m}. if i = r then w r else 0)"
    by (intro sum.cong refl) (simp add: unit)
  also have "\<dots> = (if i < ?m then w i else 0)"
    using i by (simp add: sum.delta)
  finally show ?thesis .
qed

lemma basicPoint_nonneg:
  assumes "\<forall>r. 0 \<le> r \<and> r < m \<longrightarrow> 0 \<le> w r" "0 \<le> l"
  shows "0 \<le> basicPoint m \<beta> w pc l j"
  unfolding basicPoint_def using assms by (intro add_nonneg_nonneg sum_nonneg) auto

lemma basicPoint_support:
  assumes "basicPoint m \<beta> w pc l j \<noteq> 0"
  shows "j \<in> \<beta> ` {r. 0 \<le> r \<and> r < m \<and> w r \<noteq> 0} \<union> (if l = 0 then {} else {pc})"
proof (rule ccontr)
  assume n: "\<not> ?thesis"
  have "(\<Sum>r \<in> {0..<m}. if \<beta> r = j then w r else 0) = 0"
  proof (rule sum.neutral, rule ballI)
    fix r assume "r \<in> {0..<m}"
    then show "(if \<beta> r = j then w r else 0) = 0" using n by (auto simp: image_iff)
  qed
  moreover have "(if j = pc then l else 0) = 0" using n by (auto split: if_splits)
  ultimately show False using assms by (simp add: basicPoint_def)
qed

lemma basicPoint_at_nonbasic:
  assumes "\<forall>r. 0 \<le> r \<and> r < m \<longrightarrow> \<beta> r \<noteq> pc"
  shows "basicPoint m \<beta> w pc l pc = l"
proof -
  have "(\<Sum>r \<in> {0..<m}. if \<beta> r = pc then w r else 0) = 0"
    by (rule sum.neutral) (use assms in auto)
  then show ?thesis by (simp add: basicPoint_def)
qed

lemma nondegenerate_zero_weights:
  assumes nd: "nat m \<le> card {j. j < n \<and> 0 < basicPoint m \<beta> w pc l j}"
  shows "card {r. 0 \<le> r \<and> r < m \<and> w r = 0} \<le> (if l = 0 then 0 else 1)"
proof -
  let ?Z = "{r. 0 \<le> r \<and> r < m \<and> w r = 0}"
  let ?N = "{r. 0 \<le> r \<and> r < m \<and> w r \<noteq> 0}"
  let ?P = "if l = 0 then {} else {pc}"
  have fin: "finite {0..<m}" by simp
  have zsub: "?Z \<subseteq> {0..<m}" and nsub: "?N \<subseteq> {0..<m}" by auto
  have fz: "finite ?Z" and fn: "finite ?N" using zsub nsub fin by (auto intro: finite_subset)
  have "?Z \<union> ?N = {0..<m}" "?Z \<inter> ?N = {}" by auto
  then have "card ?Z + card ?N = card {0..<m}" using card_Un_disjoint[OF fz fn] by simp
  then have zn: "card ?Z + card ?N = nat m" by simp
  have sub: "{j. j < n \<and> 0 < basicPoint m \<beta> w pc l j} \<subseteq> \<beta> ` ?N \<union> ?P"
  proof
    fix j assume "j \<in> {j. j < n \<and> 0 < basicPoint m \<beta> w pc l j}"
    then have "basicPoint m \<beta> w pc l j \<noteq> 0" by simp
    then show "j \<in> \<beta> ` ?N \<union> ?P" by (rule basicPoint_support)
  qed
  have "finite (\<beta> ` ?N \<union> ?P)" using fn by simp
  then have "card {j. j < n \<and> 0 < basicPoint m \<beta> w pc l j} \<le> card (\<beta> ` ?N \<union> ?P)"
    using sub by (rule card_mono)
  also have "\<dots> \<le> card (\<beta> ` ?N) + card ?P" by (rule card_Un_le)
  also have "\<dots> \<le> card ?N + (if l = 0 then 0 else 1)"
    using card_image_le[OF fn, of \<beta>] by simp
  finally have "nat m \<le> card ?N + (if l = 0 then 0 else 1)" using nd by simp
  then show ?thesis using zn by (simp split: if_splits)
qed

lemma simplexInvD:
  assumes "simplexInv t0 t"
  shows "wfTableau t" "1 \<le> Rows t" "1 \<le> Cols t" "Rows t = Rows t0" "Cols t = Cols t0"
    "\<And>y. constraintsHold t y \<longleftrightarrow> constraintsHold t0 y"
    "\<And>y. constraintsHold t0 y \<Longrightarrow> residual t (Rows t - 1) y = residual t0 (Rows t0 - 1) y"
    "\<exists>\<beta>. basisOf t \<beta>"
    "\<And>r. 0 \<le> r \<Longrightarrow> r < Rows t - 1 \<Longrightarrow> 0 < rhs t r"
    "0 \<le> rhs t (Rows t - 1)"
  using assms unfolding simplexInv_def by blast+

lemma basicPoint_feasible:
  assumes inv: "simplexInv t0 t" and b: "basisOf t \<beta>" and pc: "pc < nVars t"
    and w: "\<forall>r. 0 \<le> r \<and> r < Rows t - 1 \<longrightarrow> w r = rhs t r - l * entry t r (int pc)"
    and wpos: "\<forall>r. 0 \<le> r \<and> r < Rows t - 1 \<longrightarrow> 0 \<le> w r" and l: "0 \<le> l"
  shows "feasiblePoint t0 (basicPoint (Rows t - 1) \<beta> w pc l)"
    and "objValue t0 (basicPoint (Rows t - 1) \<beta> w pc l)
         = rhs t (Rows t - 1) - l * entry t (Rows t - 1) (int pc)"
proof -
  let ?y = "basicPoint (Rows t - 1) \<beta> w pc l"
  note rows = simplexInvD(2,4,5)[OF inv]
  have "residual t r ?y = 0" if "0 \<le> r \<and> r < Rows t - 1" for r
  proof -
    have "rowSum t r ?y = w r + l * entry t r (int pc)"
      using rowSum_basicPoint[OF b pc, of r w l] that by simp
    then show ?thesis using w that by (simp add: residual_def)
  qed
  then have ch: "constraintsHold t ?y" by (simp add: constraintsHold_def)
  then have ch0: "constraintsHold t0 ?y" using simplexInvD(6)[OF inv] by simp
  have "0 \<le> ?y j" for j by (rule basicPoint_nonneg[OF wpos l])
  then show "feasiblePoint t0 ?y" using ch0 by (simp add: feasiblePoint_def)
  have "residual t0 (Rows t0 - 1) ?y = residual t (Rows t - 1) ?y"
    using simplexInvD(7)[OF inv ch0] by simp
  moreover have "rowSum t (Rows t - 1) ?y = l * entry t (Rows t - 1) (int pc)"
    using rowSum_basicPoint[OF b pc, of "Rows t - 1" w l] rows by simp
  ultimately show "objValue t0 ?y = rhs t (Rows t - 1) - l * entry t (Rows t - 1) (int pc)"
    by (simp add: objValue_def residual_def)
qed

section \<open>One iteration of the simplex method\<close>

lemma column_nonbasic:
  assumes b: "basisOf t \<beta>" and rows: "1 \<le> Rows t" and neg: "entry t (Rows t - 1) (int pc) < 0"
  shows "\<forall>r. 0 \<le> r \<and> r < Rows t - 1 \<longrightarrow> \<beta> r \<noteq> pc"
proof (intro allI impI notI)
  fix r assume r: "0 \<le> r \<and> r < Rows t - 1" and e: "\<beta> r = pc"
  have "entry t (Rows t - 1) (int (\<beta> r)) = 0"
    using b r rows unfolding basisOf_def by auto
  then show False using neg e by simp
qed

lemma pivot_row_exists:
  assumes inv: "simplexInv t0 t" and bd: "boundedTableau t0" and bm: "belowMaxTableau t0"
    and b: "basisOf t \<beta>" and pc: "0 \<le> pc" "pc < Cols t - 1"
    and neg: "entry t (Rows t - 1) pc < 0"
  shows "\<exists>r. 0 \<le> r \<and> r < Rows t - 1 \<and> positiveRatio t pc r \<and> ratio t r pc < MaxFloat64"
proof -
  let ?m = "Rows t - 1"
  let ?pc = "nat pc"
  let ?a = "\<lambda>r. entry t r pc"
  note d = simplexInvD[OF inv]
  have ipc: "int ?pc = pc" using pc by simp
  have pcn: "?pc < nVars t" using pc by (simp add: nVars_def)
  have nv: "nVars t0 = nVars t" using d(5) by (simp add: nVars_def)
  have nb: "\<forall>r. 0 \<le> r \<and> r < ?m \<longrightarrow> \<beta> r \<noteq> ?pc"
    using column_nonbasic[OF b d(2)] neg ipc by simp
  show ?thesis
  proof (cases "\<exists>r. 0 \<le> r \<and> r < ?m \<and> 0 < ?a r")
    case False
    then have ale: "?a r \<le> 0" if "0 \<le> r \<and> r < ?m" for r using that by force
    obtain K where K: "\<And>y. feasiblePoint t0 y \<Longrightarrow> objValue t0 y \<le> K"
      using bd unfolding boundedTableau_def by blast
    let ?c = "- entry t ?m pc"
    have cpos: "0 < ?c" using neg by simp
    define l where "l = max 0 ((K - rhs t ?m) / ?c + 1)"
    have l0: "0 \<le> l" by (simp add: l_def)
    define w where "w = (\<lambda>r. rhs t r - l * ?a r)"
    have w: "\<forall>r. 0 \<le> r \<and> r < ?m \<longrightarrow> w r = rhs t r - l * entry t r (int ?pc)"
      unfolding ipc by (simp add: w_def)
    have wpos: "\<forall>r. 0 \<le> r \<and> r < ?m \<longrightarrow> 0 \<le> w r"
    proof (intro allI impI)
      fix r assume r: "0 \<le> r \<and> r < ?m"
      have "l * ?a r \<le> 0" using l0 ale[OF r] by (simp add: mult_nonneg_nonpos)
      moreover have "0 < rhs t r" using d(9) r by simp
      ultimately show "0 \<le> w r" by (simp add: w_def)
    qed
    have "objValue t0 (basicPoint ?m \<beta> w ?pc l) = rhs t ?m - l * entry t ?m (int ?pc)"
      by (rule basicPoint_feasible(2)[OF inv b pcn w wpos l0])
    moreover have "objValue t0 (basicPoint ?m \<beta> w ?pc l) \<le> K"
      by (rule K[OF basicPoint_feasible(1)[OF inv b pcn w wpos l0]])
    ultimately have le: "rhs t ?m + l * ?c \<le> K" unfolding ipc by simp
    have "(K - rhs t ?m) / ?c + 1 \<le> l" by (simp add: l_def)
    then have "((K - rhs t ?m) / ?c + 1) * ?c \<le> l * ?c"
      using cpos by (simp add: mult_right_mono)
    moreover have "((K - rhs t ?m) / ?c + 1) * ?c = K - rhs t ?m + ?c"
      using cpos by (simp add: field_simps)
    ultimately have "K - rhs t ?m + ?c \<le> l * ?c" by simp
    then show ?thesis using le cpos by simp
  next
    case True
    let ?R = "{r. 0 \<le> r \<and> r < ?m \<and> 0 < ?a r}"
    let ?f = "\<lambda>r. rhs t r / ?a r"
    have "?R \<subseteq> {0..<?m}" by auto
    then have fin: "finite ?R" by (rule finite_subset) simp
    have ne: "?R \<noteq> {}" using True by blast
    have "Min (?f ` ?R) \<in> ?f ` ?R" using fin ne by (intro Min_in) simp_all
    then obtain rs where rs: "rs \<in> ?R" "?f rs = Min (?f ` ?R)" by force
    have minr: "?f rs \<le> ?f r" if "r \<in> ?R" for r
      using fin that unfolding rs(2) by (intro Min_le) simp_all
    define q where "q = ?f rs"
    have rsr: "0 \<le> rs \<and> rs < ?m" and ars: "0 < ?a rs" using rs(1) by simp_all
    have qpos: "0 < q" using d(9)[of rs] rsr ars by (simp add: q_def)
    define w where "w = (\<lambda>r. rhs t r - q * ?a r)"
    have w: "\<forall>r. 0 \<le> r \<and> r < ?m \<longrightarrow> w r = rhs t r - q * entry t r (int ?pc)"
      unfolding ipc by (simp add: w_def)
    have wpos: "\<forall>r. 0 \<le> r \<and> r < ?m \<longrightarrow> 0 \<le> w r"
    proof (intro allI impI)
      fix r assume r: "0 \<le> r \<and> r < ?m"
      have rp: "0 < rhs t r" using d(9) r by simp
      show "0 \<le> w r"
      proof (cases "0 < ?a r")
        case True
        then have "q \<le> rhs t r / ?a r" using minr[of r] r by (simp add: q_def)
        then have "q * ?a r \<le> rhs t r" using True by (simp add: pos_le_divide_eq)
        then show ?thesis by (simp add: w_def)
      next
        case False
        then have "q * ?a r \<le> 0" using qpos by (simp add: mult_nonneg_nonpos)
        then show ?thesis using rp by (simp add: w_def)
      qed
    qed
    have "feasiblePoint t0 (basicPoint ?m \<beta> w ?pc q)"
      by (rule basicPoint_feasible(1)[OF inv b pcn w wpos]) (use qpos in simp)
    then have "basicPoint ?m \<beta> w ?pc q ?pc < MaxFloat64"
      using bm pcn nv unfolding belowMaxTableau_def by simp
    then have "q < MaxFloat64" using basicPoint_at_nonbasic[OF nb] by simp
    moreover have "ratio t rs pc = q" by (simp add: ratio_def q_def rhs_def)
    moreover have "positiveRatio t pc rs"
      using ars qpos by (simp add: positiveRatio_def ratio_def q_def rhs_def)
    ultimately show ?thesis using rsr by blast
  qed
qed

lemma simplex_step:
  assumes inv: "simplexInv t0 t" and bd: "boundedTableau t0" and nd: "nonDegenerateTableau t0"
    and bm: "belowMaxTableau t0" and ns: "isSolved t = Inr False"
  shows "\<exists>t'. isUnbounded t = Inr False \<and> scaleAndElim t = Inr t' \<and> simplexInv t0 t'
           \<and> rhs t (Rows t - 1) < rhs t' (Rows t' - 1) \<and> 2 \<le> Rows t'"
proof -
  let ?m = "Rows t - 1"
  let ?C = "Cols t - 1"
  note d = simplexInvD[OF inv]
  have nv: "nVars t0 = nVars t" using d(5) by (simp add: nVars_def)
  \<comment> \<open>a negative coefficient, and the pivot that \<open>pivotIdxs\<close> chooses\<close>
  obtain j0 where j0: "0 \<le> j0" "j0 < Cols t" "entry t ?m j0 < 0"
    using not_solved_negative_entry[OF d(1,2) ns] by blast
  have "j0 \<noteq> ?C" using j0(3) d(10) by (auto simp: rhs_def)
  then have neg: "\<exists>j. 0 \<le> j \<and> j < ?C \<and> entry t ?m j < 0" using j0 by (intro exI[of _ j0]) simp
  obtain pr pc where piv: "pivotIdxs t = Inr (pr, pc)"
    and pc: "0 \<le> pc" "pc < ?C" "entry t ?m pc < 0"
    and none: "pr = - 1 \<longleftrightarrow>
          \<not> (\<exists>r. 0 \<le> r \<and> r < ?m \<and> positiveRatio t pc r \<and> ratio t r pc < MaxFloat64)"
    and some: "pr \<noteq> - 1 \<longrightarrow>
          0 \<le> pr \<and> pr < ?m \<and> positiveRatio t pc pr \<and> ratio t pr pc < MaxFloat64
          \<and> (\<forall>r. 0 \<le> r \<and> r < ?m \<and> positiveRatio t pc r \<longrightarrow> ratio t pr pc \<le> ratio t r pc)
          \<and> (\<forall>r. 0 \<le> r \<and> r < pr \<and> positiveRatio t pc r \<longrightarrow> ratio t pr pc < ratio t r pc)"
    using pivotIdxs_props[OF d(1,2) neg] by blast
  obtain \<beta> where b: "basisOf t \<beta>" using d(8) by blast
  have "pr \<noteq> - 1" using none pivot_row_exists[OF inv bd bm b pc] by simp
  then have pr: "0 \<le> pr" "pr < ?m" and ppr: "positiveRatio t pc pr"
    and minr: "\<And>r. 0 \<le> r \<Longrightarrow> r < ?m \<Longrightarrow> positiveRatio t pc r \<Longrightarrow> ratio t pr pc \<le> ratio t r pc"
    using some by blast+
  let ?pe = "entry t pr pc"
  let ?a = "\<lambda>r. entry t r pc"
  define q where "q = ratio t pr pc"
  have pe: "?pe \<noteq> 0" and qpos: "0 < q" using ppr by (simp_all add: positiveRatio_def q_def)
  have qdef: "q = rhs t pr / ?pe" by (simp add: q_def ratio_def rhs_def)
  have rpr: "0 < rhs t pr" using d(9) pr by simp
  have pepos: "0 < ?pe" using qpos rpr pe unfolding qdef by (simp add: zero_less_divide_iff)
  have prR: "pr < Rows t" and pcC: "pc < Cols t" using pr pc by simp_all
  obtain t' where t': "scaleAndElim t = Inr t'" "wfTableau t'" "Rows t' = Rows t"
    "Cols t' = Cols t"
    and ent: "\<forall>k j. 0 \<le> k \<and> k < Rows t \<and> 0 \<le> j \<and> j < Cols t \<longrightarrow>
          entry t' k j = (if k = pr then entry t pr j / ?pe
                          else entry t k j - entry t k pc * (entry t pr j / ?pe))"
    using scaleAndElim_props[OF d(1) piv pr(1) prR pc(1) pcC pe] by blast
  have unb: "isUnbounded t = Inr False" using piv pr by (simp add: isUnbounded_def)
  have res: "residual t' k y = (if k = pr then residual t pr y / ?pe
                            else residual t k y - ?a k * (residual t pr y / ?pe))"
    if "0 \<le> k" "k < Rows t" for k y
    by (rule residual_pivot[OF d(3) t'(4) that ent])
  have rhs': "rhs t' k = (if k = pr then q else rhs t k - ?a k * q)"
    if "0 \<le> k" "k < Rows t" for k
    using ent that d(3) t'(4) by (simp add: rhs_def qdef)
  \<comment> \<open>the constraints keep their solutions, the objective its values\<close>
  have ch: "constraintsHold t' y \<longleftrightarrow> constraintsHold t y" for y
  proof
    assume h: "constraintsHold t' y"
    have z: "residual t pr y = 0"
      using h res[OF pr(1) prR, of y] pr pe t'(3) by (simp add: constraintsHold_def)
    show "constraintsHold t y"
      unfolding constraintsHold_def
    proof (intro allI impI)
      fix r assume r: "0 \<le> r \<and> r < ?m"
      then have "residual t' r y = 0" using h t'(3) by (simp add: constraintsHold_def)
      then show "residual t r y = 0" using res[of r y] r z by (simp split: if_splits)
    qed
  next
    assume h: "constraintsHold t y"
    then have z: "residual t pr y = 0" using pr by (simp add: constraintsHold_def)
    show "constraintsHold t' y"
      unfolding constraintsHold_def t'(3)
    proof (intro allI impI)
      fix r assume r: "0 \<le> r \<and> r < ?m"
      then have "residual t r y = 0" using h by (simp add: constraintsHold_def)
      then show "residual t' r y = 0" using res[of r y] r z by simp
    qed
  qed
  have ch0: "constraintsHold t' y \<longleftrightarrow> constraintsHold t0 y" for y using ch d(6) by simp
  have ob: "residual t' (Rows t' - 1) y = residual t0 (Rows t0 - 1) y"
    if "constraintsHold t0 y" for y
  proof -
    have "constraintsHold t y" using that d(6) by simp
    then have z: "residual t pr y = 0" using pr by (simp add: constraintsHold_def)
    have "residual t' ?m y = residual t ?m y" using res[of ?m y] d(2) pr z by simp
    then show ?thesis using d(7)[OF that] t'(3) by simp
  qed
  \<comment> \<open>the new basis\<close>
  define \<beta>' where "\<beta>' = \<beta>(pr := nat pc)"
  have b': "basisOf t' \<beta>'"
    unfolding basisOf_def t'(3)
  proof (intro allI impI conjI)
    fix r assume r: "0 \<le> r \<and> r < ?m"
    have brn: "\<beta> r < nVars t" using b r by (simp add: basisOf_def)
    show "\<beta>' r < nVars t'"
      using brn pc t'(4) by (simp add: \<beta>'_def nVars_def)
    fix i assume i: "0 \<le> i \<and> i < Rows t"
    show "entry t' i (int (\<beta>' r)) = (if i = r then 1 else 0)"
    proof (cases "r = pr")
      case True
      then have "int (\<beta>' r) = pc" using pc by (simp add: \<beta>'_def)
      moreover have "entry t' i pc = (if i = pr then 1 else 0)"
        using ent i pc pe by simp
      ultimately show ?thesis using True by simp
    next
      case False
      have bc: "0 \<le> int (\<beta> r) \<and> int (\<beta> r) < Cols t" using brn by (simp add: nVars_def)
      have u: "entry t k (int (\<beta> r)) = (if k = r then 1 else 0)" if "0 \<le> k \<and> k < Rows t" for k
        using b r that by (simp add: basisOf_def)
      have "entry t pr (int (\<beta> r)) = 0" using u[of pr] pr False by simp
      then have "entry t' i (int (\<beta> r)) = (if i = pr then 0 else entry t i (int (\<beta> r)))"
        using ent i bc by simp
      then show ?thesis using u[OF i] False by (auto simp: \<beta>'_def)
    qed
  qed
  \<comment> \<open>the right-hand sides stay positive, by non-degeneracy\<close>
  define w where "w = (\<lambda>r. rhs t r - q * ?a r)"
  have ipc: "int (nat pc) = pc" using pc by simp
  have pcn: "nat pc < nVars t" using pc by (simp add: nVars_def)
  have w: "\<forall>r. 0 \<le> r \<and> r < ?m \<longrightarrow> w r = rhs t r - q * entry t r (int (nat pc))"
    unfolding ipc by (simp add: w_def)
  have wpos: "\<forall>r. 0 \<le> r \<and> r < ?m \<longrightarrow> 0 \<le> w r"
  proof (intro allI impI)
    fix r assume r: "0 \<le> r \<and> r < ?m"
    have rp: "0 < rhs t r" using d(9) r by simp
    show "0 \<le> w r"
    proof (cases "0 < ?a r")
      case True
      then have "positiveRatio t pc r" using rp by (simp add: positiveRatio_def ratio_def rhs_def)
      then have "q \<le> rhs t r / ?a r" using minr[of r] r by (simp add: q_def ratio_def rhs_def)
      then have "q * ?a r \<le> rhs t r" using True by (simp add: pos_le_divide_eq)
      then show ?thesis by (simp add: w_def)
    next
      case False
      then have "q * ?a r \<le> 0" using qpos by (simp add: mult_nonneg_nonpos)
      then show ?thesis using rp by (simp add: w_def)
    qed
  qed
  have feas: "feasiblePoint t0 (basicPoint ?m \<beta> w (nat pc) q)"
    by (rule basicPoint_feasible(1)[OF inv b pcn w wpos]) (use qpos in simp)
  have "nat ?m \<le> card {j. j < nVars t \<and> 0 < basicPoint ?m \<beta> w (nat pc) q j}"
    using nd feas nv d(4) unfolding nonDegenerateTableau_def by simp
  then have cz: "card {r. 0 \<le> r \<and> r < ?m \<and> w r = 0} \<le> 1"
    using nondegenerate_zero_weights[of ?m "nVars t" \<beta> w "nat pc" q] qpos by simp
  have wpr: "w pr = 0" using pe by (simp add: w_def qdef)
  have wnz: "w r \<noteq> 0" if r: "0 \<le> r \<and> r < ?m" "r \<noteq> pr" for r
  proof
    assume "w r = 0"
    then have "{pr, r} \<subseteq> {r. 0 \<le> r \<and> r < ?m \<and> w r = 0}" using wpr pr r by simp
    moreover have "finite {r. 0 \<le> r \<and> r < ?m \<and> w r = 0}"
      by (rule finite_subset[of _ "{0..<?m}"]) auto
    ultimately have "card {pr, r} \<le> card {r. 0 \<le> r \<and> r < ?m \<and> w r = 0}"
      by (intro card_mono)
    then show False using cz r(2) by simp
  qed
  have pos': "0 < rhs t' r" if r: "0 \<le> r \<and> r < Rows t' - 1" for r
  proof (cases "r = pr")
    case True
    then show ?thesis using rhs'[of r] r t'(3) qpos by simp
  next
    case False
    have r2: "0 \<le> r \<and> r < ?m" using r t'(3) by simp
    have "rhs t' r = w r" using rhs'[of r] r2 False by (simp add: w_def mult.commute)
    then show ?thesis using wpos wnz[OF r2 False] r2 by (simp add: less_le)
  qed
  \<comment> \<open>the objective value grows\<close>
  have "rhs t' ?m = rhs t ?m - entry t ?m pc * q" using rhs'[of ?m] d(2) pr by simp
  moreover have "0 < - entry t ?m pc * q" using pc(3) qpos by (simp add: mult_neg_pos)
  ultimately have grow: "rhs t ?m < rhs t' ?m" by simp
  have "simplexInv t0 t'"
    unfolding simplexInv_def
    using t'(2,3,4) d(2,3,4,5) ch0 ob b' pos' grow d(10) by (intro conjI) auto
  moreover have "2 \<le> Rows t'" using pr t'(3) by simp
  ultimately show ?thesis using unb t'(1,3) grow by auto
qed

section \<open>Termination of the driver\<close>

lemma finite_improvingBases: "finite (improvingBases t0 v)"
  by (rule finite_subset[of _ "Pow {..<nVars t0}"]) (auto simp: improvingBases_def)

lemma improvingBases_mono: "v \<le> v' \<Longrightarrow> improvingBases t0 v' \<subseteq> improvingBases t0 v"
  unfolding improvingBases_def by force

lemma basis_not_improving:
  assumes inv: "simplexInv t0 t" and b: "basisOf t \<beta>"
  shows "\<beta> ` {0..<Rows t - 1} \<notin> improvingBases t0 (rhs t (Rows t - 1))"
proof
  let ?m = "Rows t - 1"
  note d = simplexInvD[OF inv]
  have nv: "nVars t0 = nVars t" using d(5) by (simp add: nVars_def)
  assume "\<beta> ` {0..<?m} \<in> improvingBases t0 (rhs t ?m)"
  then obtain y where y: "feasiblePoint t0 y" "\<forall>j<nVars t. j \<notin> \<beta> ` {0..<?m} \<longrightarrow> y j = 0"
    "rhs t ?m < objValue t0 y"
    unfolding improvingBases_def nv by blast
  have ch0: "constraintsHold t0 y" using y(1) by (simp add: feasiblePoint_def)
  have "entry t ?m (int j) * y j = 0" if "j < nVars t" for j
  proof (cases "j \<in> \<beta> ` {0..<?m}")
    case True
    then obtain r where "0 \<le> r \<and> r < ?m" "j = \<beta> r" by auto
    then have "entry t ?m (int j) = 0" using b d(2) unfolding basisOf_def by auto
    then show ?thesis by simp
  next
    case False
    then show ?thesis using y(2) that by simp
  qed
  then have "rowSum t ?m y = 0" unfolding rowSum_def by (intro sum.neutral) simp
  then have "objValue t0 y = rhs t ?m"
    using d(7)[OF ch0] by (simp add: objValue_def residual_def)
  then show False using y(3) by simp
qed

lemma basis_improving:
  assumes inv: "simplexInv t0 t" and b: "basisOf t \<beta>" and v: "v < rhs t (Rows t - 1)"
    and rows: "2 \<le> Rows t"
  shows "\<beta> ` {0..<Rows t - 1} \<in> improvingBases t0 v"
proof -
  let ?m = "Rows t - 1"
  note d = simplexInvD[OF inv]
  have nv: "nVars t0 = nVars t" using d(5) by (simp add: nVars_def)
  have b0: "\<beta> 0 < nVars t" using b rows by (simp add: basisOf_def)
  let ?y = "basicPoint ?m \<beta> (rhs t) (\<beta> 0) 0"
  have w: "\<forall>r. 0 \<le> r \<and> r < ?m \<longrightarrow> rhs t r = rhs t r - 0 * entry t r (int (\<beta> 0))" by simp
  have wpos: "\<forall>r. 0 \<le> r \<and> r < ?m \<longrightarrow> 0 \<le> rhs t r" using d(9) by (simp add: less_imp_le)
  have f: "feasiblePoint t0 ?y" by (rule basicPoint_feasible(1)[OF inv b b0 w wpos]) simp
  have "objValue t0 ?y = rhs t ?m - 0 * entry t ?m (int (\<beta> 0))"
    by (rule basicPoint_feasible(2)[OF inv b b0 w wpos]) simp
  then have o: "v < objValue t0 ?y" using v by simp
  have s: "?y j = 0" if "j \<notin> \<beta> ` {0..<?m}" for j
  proof (rule ccontr)
    assume "?y j \<noteq> 0"
    then have "j \<in> \<beta> ` {r. 0 \<le> r \<and> r < ?m \<and> rhs t r \<noteq> 0} \<union> (if (0::real) = 0 then {} else {\<beta> 0})"
      by (rule basicPoint_support)
    then show False using that by auto
  qed
  have sub: "\<beta> ` {0..<?m} \<subseteq> {..<nVars t0}" using b nv by (auto simp: basisOf_def)
  show ?thesis unfolding improvingBases_def using sub f s o by blast
qed

lemma Solve_unfold_solved: "isSolved t = Inr True \<Longrightarrow> Solve t = Some (t, None)"
  by (subst Solve.simps) simp

lemma Solve_unfold_pivot:
  "isSolved t = Inr False \<Longrightarrow> isUnbounded t = Inr False \<Longrightarrow> scaleAndElim t = Inr t' \<Longrightarrow>
   Solve t = Solve t'"
  by (subst Solve.simps) simp

lemma Solve_terminates_inv:
  assumes "simplexInv t0 t" and bd: "boundedTableau t0" and nd: "nonDegenerateTableau t0"
    and bm: "belowMaxTableau t0"
  shows "\<exists>t'. Solve t = Some (t', None) \<and> isSolved t' = Inr True"
  using assms(1)
proof (induction "card (improvingBases t0 (rhs t (Rows t - 1)))" arbitrary: t rule: less_induct)
  case less
  note inv = \<open>simplexInv t0 t\<close>
  note d = simplexInvD[OF inv]
  show ?case
  proof (cases "\<forall>v \<in> set (rowOf t (Rows t - 1)). 0 \<le> v")
    case True
    then have "isSolved t = Inr True" using isSolved_whole_row[OF d(2)] by simp
    then show ?thesis using Solve_unfold_solved by blast
  next
    case False
    then have ns: "isSolved t = Inr False" using isSolved_whole_row[OF d(2)] by simp
    obtain t' where t': "isUnbounded t = Inr False" "scaleAndElim t = Inr t'" "simplexInv t0 t'"
      "rhs t (Rows t - 1) < rhs t' (Rows t' - 1)" and rows2: "2 \<le> Rows t'"
      using simplex_step[OF inv bd nd bm ns] by blast
    note d' = simplexInvD[OF t'(3)]
    obtain \<beta>' where b': "basisOf t' \<beta>'" using d'(8) by blast
    have "improvingBases t0 (rhs t' (Rows t' - 1)) \<subseteq> improvingBases t0 (rhs t (Rows t - 1))"
      using t'(4) by (intro improvingBases_mono) simp
    moreover have "\<beta>' ` {0..<Rows t' - 1} \<in> improvingBases t0 (rhs t (Rows t - 1))"
      by (rule basis_improving[OF t'(3) b' t'(4) rows2])
    moreover have "\<beta>' ` {0..<Rows t' - 1} \<notin> improvingBases t0 (rhs t' (Rows t' - 1))"
      by (rule basis_not_improving[OF t'(3) b'])
    ultimately have "improvingBases t0 (rhs t' (Rows t' - 1)) \<subset> improvingBases t0 (rhs t (Rows t - 1))"
      by blast
    then have "card (improvingBases t0 (rhs t' (Rows t' - 1)))
               < card (improvingBases t0 (rhs t (Rows t - 1)))"
      by (intro psubset_card_mono finite_improvingBases)
    from less(1)[OF this t'(3)] show ?thesis using Solve_unfold_pivot[OF ns t'(1,2)] by simp
  qed
qed

section \<open>The tableau of a linear program\<close>

lemma tableauRowsFrom_row:
  assumes "\<forall>c \<in> set cs. length (Coefficients c) = n" "i < length cs"
  shows "take (n + m + 1) (drop (i * (n + m + 1)) (tableauRowsFrom m k cs @ rest))
         = constraintRow m (k + i) (cs ! i)"
  using assms
proof (induction cs arbitrary: i k)
  case Nil
  then show ?case by simp
next
  case (Cons c cs)
  have len: "length (Coefficients c @ ((replicate m 0)[k := 1] @ [RightHandSide c])) = n + m + 1"
    using Cons.prems(1) by simp
  show ?case
  proof (cases i)
    case 0
    then show ?thesis using len by (simp add: constraintRow_def)
  next
    case (Suc i')
    have "drop (i * (n + m + 1)) (tableauRowsFrom m k (c # cs) @ rest)
          = drop (i' * (n + m + 1)) (tableauRowsFrom m (k + 1) cs @ rest)"
      using len Suc by simp
    then show ?thesis using Cons.IH[of i' "k + 1"] Cons.prems Suc by simp
  qed
qed

lemma tableauRowsFrom_last:
  assumes "\<forall>c \<in> set cs. length (Coefficients c) = n" "length rest = n + m + 1"
  shows "take (n + m + 1) (drop (length cs * (n + m + 1)) (tableauRowsFrom m k cs @ rest)) = rest"
  using assms length_tableauRowsFrom[OF assms(1), of m k] by simp

lemma sum_lessThan_add:
  fixes f :: "nat \<Rightarrow> real"
  shows "(\<Sum>j<n + m. f j) = (\<Sum>j<n. f j) + (\<Sum>j<m. f (n + j))"
  by (induction m) (simp_all add: add.assoc[symmetric])

lemma newTableauOf_shape:
  assumes match: "\<forall>c \<in> set cs. length (Coefficients c) = length ob"
  shows "wfTableau (newTableauOf cs ob)"
    and "Rows (newTableauOf cs ob) = int (length cs) + 1"
    and "Cols (newTableauOf cs ob) = int (length ob) + int (length cs) + 1"
    and "nVars (newTableauOf cs ob) = length ob + length cs"
    and "\<And>i. i < length cs \<Longrightarrow>
           rowOf (newTableauOf cs ob) (int i) = constraintRow (length cs) i (cs ! i)"
    and "rowOf (newTableauOf cs ob) (int (length cs)) = ob @ replicate (length cs + 1) 0"
proof -
  let ?n = "length ob" and ?m = "length cs"
  let ?t = "newTableauOf cs ob"
  have len: "length (tableauRowsFrom ?m 0 cs) = ?m * (?n + ?m + 1)"
    by (rule length_tableauRowsFrom[OF match])
  have "int (length (Data ?t)) = (int ?m + 1) * (int ?n + int ?m + 1)"
    using len by (simp add: newTableauOf_def algebra_simps)
  then show "wfTableau ?t" by (simp add: wfTableau_def newTableauOf_def)
  show "Rows ?t = int ?m + 1" "Cols ?t = int ?n + int ?m + 1" by (simp_all add: newTableauOf_def)
  show "nVars ?t = ?n + ?m" by (simp add: nVars_def newTableauOf_def)
  have c: "nat (Cols ?t) = ?n + ?m + 1" by (simp add: newTableauOf_def)
  have ic: "nat (int i * Cols ?t) = i * (?n + ?m + 1)" for i
    by (simp add: newTableauOf_def nat_mult_distrib nat_add_distrib)
  have D: "Data ?t = tableauRowsFrom ?m 0 cs @ (ob @ replicate (?m + 1) 0)"
    by (simp add: newTableauOf_def)
  show "rowOf ?t (int i) = constraintRow ?m i (cs ! i)" if "i < ?m" for i
  proof -
    have "take (?n + ?m + 1) (drop (i * (?n + ?m + 1))
            (tableauRowsFrom ?m 0 cs @ (ob @ replicate (?m + 1) 0)))
          = constraintRow ?m (0 + i) (cs ! i)"
      by (rule tableauRowsFrom_row[OF match that])
    then show ?thesis unfolding rowOf_def c ic D by (simp only: add_0)
  qed
  have "length (ob @ replicate (?m + 1) 0) = ?n + ?m + 1" by simp
  then show "rowOf ?t (int ?m) = ob @ replicate (?m + 1) 0"
    unfolding rowOf_def c ic D by (rule tableauRowsFrom_last[OF match])
qed

lemma newTableauOf_entries:
  assumes match: "\<forall>c \<in> set cs. length (Coefficients c) = length ob"
  shows "\<And>i j. i < length cs \<Longrightarrow> j < length ob \<Longrightarrow>
           entry (newTableauOf cs ob) (int i) (int j) = Coefficients (cs ! i) ! j"
    and "\<And>i j. i < length cs \<Longrightarrow> j < length cs \<Longrightarrow>
           entry (newTableauOf cs ob) (int i) (int (length ob + j)) = (if j = i then 1 else 0)"
    and "\<And>i. i < length cs \<Longrightarrow>
           entry (newTableauOf cs ob) (int i) (int (length ob + length cs)) = RightHandSide (cs ! i)"
    and "\<And>j. j < length ob \<Longrightarrow>
           entry (newTableauOf cs ob) (int (length cs)) (int j) = ob ! j"
    and "\<And>j. j \<le> length cs \<Longrightarrow>
           entry (newTableauOf cs ob) (int (length cs)) (int (length ob + j)) = 0"
proof -
  let ?n = "length ob" and ?m = "length cs"
  let ?t = "newTableauOf cs ob"
  note s = newTableauOf_shape[OF match]
  have e: "entry ?t (int i) (int j) = rowOf ?t (int i) ! j" if "i \<le> ?m" "j \<le> ?n + ?m" for i j
    using nth_rowOf[OF s(1), of "int i" "int j"] that s(2,3) by simp
  have lc: "length (Coefficients (cs ! i)) = ?n" if "i < ?m" for i using match that by simp
  show "entry ?t (int i) (int j) = Coefficients (cs ! i) ! j" if "i < ?m" "j < ?n" for i j
    using e[of i j] that s(5)[OF that(1)] lc[OF that(1)]
    by (simp add: constraintRow_def nth_append)
  show "entry ?t (int i) (int (?n + j)) = (if j = i then 1 else 0)" if "i < ?m" "j < ?m" for i j
    using e[of i "?n + j"] that s(5)[OF that(1)] lc[OF that(1)]
    by (simp add: constraintRow_def nth_append nth_list_update)
  show "entry ?t (int i) (int (?n + ?m)) = RightHandSide (cs ! i)" if "i < ?m" for i
    using e[of i "?n + ?m"] that s(5)[OF that] lc[OF that]
    by (simp add: constraintRow_def nth_append)
  show "entry ?t (int ?m) (int j) = ob ! j" if "j < ?n" for j
    using e[of ?m j] that s(6) by (simp add: nth_append)
  show "entry ?t (int ?m) (int (?n + j)) = 0" if "j \<le> ?m" for j
  proof -
    have "(ob @ replicate (?m + 1) 0) ! (?n + j) = replicate (?m + 1) (0::real) ! j"
      by (rule nth_append_length_plus)
    also have "\<dots> = 0" using that by (intro nth_replicate) simp
    finally show ?thesis using e[of ?m "?n + j"] that s(6) by simp
  qed
qed

lemma newTableauOf_residual:
  assumes match: "\<forall>c \<in> set cs. length (Coefficients c) = length ob"
  shows "\<And>i. i < length cs \<Longrightarrow>
           residual (newTableauOf cs ob) (int i) y
           = (\<Sum>j<length ob. Coefficients (cs ! i) ! j * y j) + y (length ob + i)
             - RightHandSide (cs ! i)"
    and "residual (newTableauOf cs ob) (int (length cs)) y = (\<Sum>j<length ob. ob ! j * y j)"
proof -
  let ?n = "length ob" and ?m = "length cs"
  let ?t = "newTableauOf cs ob"
  note s = newTableauOf_shape[OF match]
  note e = newTableauOf_entries[OF match]
  have last: "Cols ?t - 1 = int (?n + ?m)" using s(3) by simp
  show "residual ?t (int i) y
        = (\<Sum>j<?n. Coefficients (cs ! i) ! j * y j) + y (?n + i) - RightHandSide (cs ! i)"
    if i: "i < ?m" for i
  proof -
    have "rowSum ?t (int i) y
          = (\<Sum>j<?n. entry ?t (int i) (int j) * y j)
            + (\<Sum>j<?m. entry ?t (int i) (int (?n + j)) * y (?n + j))"
      unfolding rowSum_def s(4) by (rule sum_lessThan_add)
    also have "(\<Sum>j<?n. entry ?t (int i) (int j) * y j) = (\<Sum>j<?n. Coefficients (cs ! i) ! j * y j)"
      by (intro sum.cong refl) (simp add: e(1)[OF i])
    also have "(\<Sum>j<?m. entry ?t (int i) (int (?n + j)) * y (?n + j))
               = (\<Sum>j<?m. if j = i then y (?n + j) else 0)"
      by (intro sum.cong refl) (simp add: e(2)[OF i] del: of_nat_add)
    also have "\<dots> = y (?n + i)" using i by (simp add: sum.delta)
    finally show ?thesis unfolding residual_def rhs_def last by (simp add: e(3)[OF i] del: of_nat_add)
  qed
  have "rowSum ?t (int ?m) y
        = (\<Sum>j<?n. entry ?t (int ?m) (int j) * y j)
          + (\<Sum>j<?m. entry ?t (int ?m) (int (?n + j)) * y (?n + j))"
    unfolding rowSum_def s(4) by (rule sum_lessThan_add)
  also have "(\<Sum>j<?n. entry ?t (int ?m) (int j) * y j) = (\<Sum>j<?n. ob ! j * y j)"
    by (intro sum.cong refl) (simp add: e(4))
  also have "(\<Sum>j<?m. entry ?t (int ?m) (int (?n + j)) * y (?n + j)) = 0"
    by (intro sum.neutral) (simp add: e(5) del: of_nat_add)
  finally show "residual ?t (int ?m) y = (\<Sum>j<?n. ob ! j * y j)"
    unfolding residual_def rhs_def last using e(5)[of ?m] by (simp del: of_nat_add)
qed

lemma newTableauOf_feasible:
  assumes match: "\<forall>c \<in> set cs. length (Coefficients c) = length ob"
  shows "feasiblePoint (newTableauOf cs ob) y \<longleftrightarrow> lpFeasible cs ob y"
    and "objValue (newTableauOf cs ob) y = lpValue ob y"
proof -
  let ?t = "newTableauOf cs ob"
  note s = newTableauOf_shape[OF match]
  note r = newTableauOf_residual[OF match]
  have "constraintsHold ?t y \<longleftrightarrow> (\<forall>i<length cs. residual ?t (int i) y = 0)"
  proof
    assume h: "constraintsHold ?t y"
    show "\<forall>i<length cs. residual ?t (int i) y = 0"
      using h s(2) unfolding constraintsHold_def by simp
  next
    assume h: "\<forall>i<length cs. residual ?t (int i) y = 0"
    show "constraintsHold ?t y"
      unfolding constraintsHold_def
    proof (intro allI impI)
      fix k assume k: "0 \<le> k \<and> k < Rows ?t - 1"
      then have "nat k < length cs" using s(2) by auto
      then have "residual ?t (int (nat k)) y = 0" using h by blast
      then show "residual ?t k y = 0" using k by simp
    qed
  qed
  then show "feasiblePoint ?t y \<longleftrightarrow> lpFeasible cs ob y"
    unfolding feasiblePoint_def lpFeasible_def s(4) using r(1)[of _ y] by auto
  show "objValue ?t y = lpValue ob y"
    unfolding objValue_def lpValue_def using r(2)[of y] s(2) by simp
qed

lemma nondegenerate_rhs_positive:
  assumes feas: "\<forall>c \<in> set cs. 0 \<le> RightHandSide c" and nd: "lpNonDegenerate cs ob"
    and i: "i < length cs"
  shows "0 < RightHandSide (cs ! i)"
proof (rule ccontr)
  let ?n = "length ob" and ?m = "length cs"
  assume "\<not> 0 < RightHandSide (cs ! i)"
  then have z: "RightHandSide (cs ! i) = 0" using feas i by (simp add: order.antisym not_less)
  define y where "y = (\<lambda>j. if j < ?n then 0 else RightHandSide (cs ! (j - ?n)))"
  have "lpFeasible cs ob y"
    unfolding lpFeasible_def using feas by (auto simp: y_def)
  then have c: "?m \<le> card {j. j < ?n + ?m \<and> 0 < y j}"
    using nd by (simp add: lpNonDegenerate_def)
  have sub: "{j. j < ?n + ?m \<and> 0 < y j} \<subseteq> (\<lambda>k. ?n + k) ` ({..<?m} - {i})"
  proof
    fix j assume "j \<in> {j. j < ?n + ?m \<and> 0 < y j}"
    then have j: "j < ?n + ?m" "0 < y j" by simp_all
    then have ge: "?n \<le> j" by (auto simp: y_def split: if_splits)
    then have "j - ?n \<noteq> i" using j(2) z by (auto simp: y_def)
    then have "j - ?n \<in> {..<?m} - {i}" using j(1) ge by simp
    moreover have "j = ?n + (j - ?n)" using ge by simp
    ultimately show "j \<in> (\<lambda>k. ?n + k) ` ({..<?m} - {i})" by (rule rev_image_eqI)
  qed
  have "card {j. j < ?n + ?m \<and> 0 < y j} \<le> card ((\<lambda>k. ?n + k) ` ({..<?m} - {i}))"
    by (rule card_mono[OF _ sub]) simp
  also have "\<dots> \<le> card ({..<?m} - {i})" by (rule card_image_le) simp
  also have "\<dots> < ?m" using i by simp
  finally show False using c by simp
qed

lemma newTableauOf_inv:
  assumes match: "\<forall>c \<in> set cs. length (Coefficients c) = length ob"
    and feas: "\<forall>c \<in> set cs. 0 \<le> RightHandSide c" and nd: "lpNonDegenerate cs ob"
  shows "simplexInv (newTableauOf cs ob) (newTableauOf cs ob)"
proof -
  let ?n = "length ob" and ?m = "length cs"
  let ?t = "newTableauOf cs ob"
  note s = newTableauOf_shape[OF match]
  note e = newTableauOf_entries[OF match]
  have last: "Cols ?t - 1 = int (?n + ?m)" using s(3) by simp
  have b: "basisOf ?t (\<lambda>r. ?n + nat r)"
    unfolding basisOf_def
  proof (intro allI impI conjI)
    fix r assume r: "0 \<le> r \<and> r < Rows ?t - 1"
    then have rm: "nat r < ?m" using s(2) by auto
    show "?n + nat r < nVars ?t" using rm s(4) by simp
    fix i assume i: "0 \<le> i \<and> i < Rows ?t"
    then have im: "nat i \<le> ?m" using s(2) by auto
    show "entry ?t i (int (?n + nat r)) = (if i = r then 1 else 0)"
    proof (cases "nat i = ?m")
      case True
      then have "entry ?t (int (nat i)) (int (?n + nat r)) = 0" using e(5)[of "nat r"] rm by simp
      moreover have "i \<noteq> r" using True rm by auto
      ultimately show ?thesis using i by simp
    next
      case False
      then have "nat i < ?m" using im by simp
      then have "entry ?t (int (nat i)) (int (?n + nat r)) = (if nat r = nat i then 1 else 0)"
        using e(2)[of "nat i" "nat r"] rm by simp
      moreover have "nat r = nat i \<longleftrightarrow> i = r" using i r by auto
      ultimately show ?thesis using i by simp
    qed
  qed
  have pos: "0 < rhs ?t r" if r: "0 \<le> r \<and> r < Rows ?t - 1" for r
  proof -
    have rm: "nat r < ?m" using r s(2) by auto
    have "rhs ?t (int (nat r)) = RightHandSide (cs ! nat r)"
      unfolding rhs_def last by (rule e(3)[OF rm])
    then show ?thesis using nondegenerate_rhs_positive[OF feas nd rm] r by simp
  qed
  have "rhs ?t (int ?m) = 0" unfolding rhs_def last using e(5)[of ?m] by simp
  then have z: "0 \<le> rhs ?t (Rows ?t - 1)" using s(2) by simp
  have r1: "1 \<le> Rows ?t" and c1: "1 \<le> Cols ?t" using s(2,3) by simp_all
  show ?thesis
    unfolding simplexInv_def using s(1) r1 c1 b pos z by (intro conjI) auto
qed

section \<open>Programs with one constraint and one variable\<close>

lemma one_constraint_feasible:
  "lpFeasible [\<lparr>Coefficients = [a], RightHandSide = b\<rparr>] [c] y
   \<longleftrightarrow> 0 \<le> y 0 \<and> 0 \<le> y 1 \<and> a * y 0 + y 1 = b"
  by (auto simp: lpFeasible_def less_Suc_eq)

lemma one_constraint_nondegenerate:
  assumes "b \<noteq> 0"
  shows "lpNonDegenerate [\<lparr>Coefficients = [a], RightHandSide = b\<rparr>] [c]"
  unfolding lpNonDegenerate_def
proof (intro allI impI)
  fix y assume "lpFeasible [\<lparr>Coefficients = [a], RightHandSide = b\<rparr>] [c] y"
  then have f: "0 \<le> y 0" "0 \<le> y 1" "a * y 0 + y 1 = b" by (simp_all add: one_constraint_feasible)
  have "0 < y 0 \<or> 0 < y 1"
  proof (rule ccontr)
    assume "\<not> (0 < y 0 \<or> 0 < y 1)"
    then have "y 0 = 0" "y 1 = 0" using f by simp_all
    then show False using f(3) assms by simp
  qed
  then obtain j where j: "j < 2" "0 < y j" by (metis zero_less_numeral one_less_numeral_iff semiring_norm(76))
  then have "{j} \<subseteq> {j. j < 2 \<and> 0 < y j}" by simp
  then have "card {j} \<le> card {j. j < 2 \<and> 0 < y j}" by (intro card_mono) simp_all
  then show "length [\<lparr>Coefficients = [a], RightHandSide = b\<rparr>]
             \<le> card {j. j < length [c] + length [\<lparr>Coefficients = [a], RightHandSide = b\<rparr>] \<and> 0 < y j}"
    by (simp add: numeral_2_eq_2)
qed

lemma one_constraint_bounded:
  assumes "0 \<le> a" "0 \<le> b"
  shows "lpBounded [\<lparr>Coefficients = [1], RightHandSide = b\<rparr>] [- a]"
  unfolding lpBounded_def
proof (intro exI[of _ "a * b"] allI impI)
  fix y assume "lpFeasible [\<lparr>Coefficients = [1], RightHandSide = b\<rparr>] [- a] y"
  then have f: "0 \<le> y 0" "0 \<le> y 1" "y 0 + y 1 = b" by (simp_all add: one_constraint_feasible)
  then have "y 0 \<le> b" by simp
  then have "a * y 0 \<le> a * b" using assms(1) by (rule mult_left_mono)
  then show "lpValue [- a] y \<le> a * b" by (simp add: lpValue_def)
qed

lemma one_constraint_bounded_neg:
  assumes "0 \<le> a"
  shows "lpBounded [\<lparr>Coefficients = [1], RightHandSide = b\<rparr>] [a]"
  unfolding lpBounded_def
proof (intro exI[of _ 0] allI impI)
  fix y assume "lpFeasible [\<lparr>Coefficients = [1], RightHandSide = b\<rparr>] [a] y"
  then have f: "0 \<le> y 0" by (simp_all add: one_constraint_feasible)
  then show "lpValue [a] y \<le> 0" using assms by (simp add: lpValue_def)
qed

section \<open>The program of the tests\<close>

lemma lp1_feasible:
  "lpFeasible lp1 [- 2, - 3] y \<longleftrightarrow>
     0 \<le> y 0 \<and> 0 \<le> y 1 \<and> 0 \<le> y 2 \<and> 0 \<le> y 3 \<and> 0 \<le> y 4
     \<and> 2 * y 0 + y 1 + y 2 = 18 \<and> 6 * y 0 + 5 * y 1 + y 3 = 60 \<and> 2 * y 0 + 5 * y 1 + y 4 = 40"
proof -
  have five: "(\<forall>j<5. P j) \<longleftrightarrow> P 0 \<and> P 1 \<and> P 2 \<and> P 3 \<and> P (4::nat)" for P
    by (auto simp: eval_nat_numeral less_Suc_eq)
  have three: "(\<forall>i<3. P i) \<longleftrightarrow> P 0 \<and> P 1 \<and> P (2::nat)" for P
    by (auto simp: eval_nat_numeral less_Suc_eq)
  have l: "length [- 2, - 3 :: real] + length lp1 = 5" "length lp1 = 3" "length [- 2, - 3 :: real] = 2"
    by (simp_all add: lp1_def)
  have s: "(\<Sum>j<2. f j) = f 0 + f (1::nat)" for f :: "nat \<Rightarrow> real"
    by (simp add: eval_nat_numeral)
  show ?thesis
    unfolding lpFeasible_def l three s by (simp add: lp1_def five)
qed

lemma lp1_bounded: "lpBounded lp1 [- 2, - 3]"
  unfolding lpBounded_def
proof (intro exI[of _ 28] allI impI)
  fix y assume "lpFeasible lp1 [- 2, - 3] y"
  then have "2 * y 0 + 3 * y 1 \<le> 28" unfolding lp1_feasible by linarith
  moreover have "lpValue [- 2, - 3] y = 2 * y 0 + 3 * y 1"
    by (simp add: lpValue_def eval_nat_numeral)
  ultimately show "lpValue [- 2, - 3] y \<le> 28" by simp
qed

lemma lp1_below: "lpBelowMax lp1 [- 2, - 3]"
  unfolding lpBelowMax_def
proof (intro allI impI)
  fix y j assume f: "lpFeasible lp1 [- 2, - 3] y" and j: "j < length [- 2, - 3 :: real] + length lp1"
  have "j = 0 \<or> j = 1 \<or> j = 2 \<or> j = 3 \<or> j = 4" using j by (auto simp: lp1_def)
  moreover have "y 0 \<le> 60" "y 1 \<le> 60" "y 2 \<le> 60" "y 3 \<le> 60" "y 4 \<le> 60"
    using f unfolding lp1_feasible by linarith+
  ultimately have "y j \<le> 60" by auto
  moreover have "(60::real) < MaxFloat64" by (simp add: MaxFloat64_def)
  ultimately show "y j < MaxFloat64" by simp
qed

lemma three_positive:
  fixes y :: "nat \<Rightarrow> real"
  assumes "a < n" "b < n" "c < n" "a \<noteq> b" "a \<noteq> c" "b \<noteq> c" "0 < y a" "0 < y b" "0 < y c"
  shows "3 \<le> card {j. j < n \<and> 0 < y j}"
proof -
  have "{a, b, c} \<subseteq> {j. j < n \<and> 0 < y j}" using assms by simp
  then have "card {a, b, c} \<le> card {j. j < n \<and> 0 < y j}" by (intro card_mono) simp_all
  then show ?thesis using assms(4-6) by simp
qed

lemma lp1_nondegenerate: "lpNonDegenerate lp1 [- 2, - 3]"
  unfolding lpNonDegenerate_def
proof (intro allI impI)
  fix y assume "lpFeasible lp1 [- 2, - 3] y"
  then have f: "0 \<le> y 0" "0 \<le> y 1" "0 \<le> y 2" "0 \<le> y 3" "0 \<le> y 4"
    "2 * y 0 + y 1 + y 2 = 18" "6 * y 0 + 5 * y 1 + y 3 = 60" "2 * y 0 + 5 * y 1 + y 4 = 40"
    unfolding lp1_feasible by simp_all
  have "3 \<le> card {j. j < 5 \<and> 0 < y j}"
  proof (cases "0 < y 0")
    case x: True
    show ?thesis
    proof (cases "0 < y 1")
      case True
      have "0 < y 2 \<or> 0 < y 3 \<or> 0 < y 4" using f by linarith
      then consider "0 < y 2" | "0 < y 3" | "0 < y 4" by blast
      then show ?thesis
      proof cases
        case 1
        then show ?thesis using x True by (intro three_positive[of 0 5 1 2]) simp_all
      next
        case 2
        then show ?thesis using x True by (intro three_positive[of 0 5 1 3]) simp_all
      next
        case 3
        then show ?thesis using x True by (intro three_positive[of 0 5 1 4]) simp_all
      qed
    next
      case False
      then have "0 < y 3" "0 < y 4" using f by linarith+
      then show ?thesis using x by (intro three_positive[of 0 5 3 4]) simp_all
    qed
  next
    case x: False
    show ?thesis
    proof (cases "0 < y 1")
      case True
      have "0 < y 2" "0 < y 3" using f x by linarith+
      then show ?thesis using True by (intro three_positive[of 1 5 2 3]) simp_all
    next
      case False
      then have "0 < y 2" "0 < y 3" "0 < y 4" using f x by linarith+
      then show ?thesis by (intro three_positive[of 2 5 3 4]) simp_all
    qed
  qed
  moreover have "length lp1 = 3" "length [- 2, - 3 :: real] + length lp1 = 5"
    by (simp_all add: lp1_def)
  ultimately show "length lp1 \<le> card {j. j < length [- 2, - 3 :: real] + length lp1 \<and> 0 < y j}"
    by (simp only:)
qed

section \<open>Evaluation on concrete tableaux\<close>

lemmas eval_simps = isSolved_def isUnbounded_def pivotIdxs_def Dims_def RawRowView_def RowView_def
  negMinIdx_def negMinIdxLoop.simps AtVec_def pivotRowLoop.simps At_def SetRow_def
  scaleAndElim_def scalePivotRow_def elimRows_def elimRowsLoop.simps addSlices_def
  zipWithFloats_def scaleSlice_def mapFloats_def Let_def MaxFloat64_def

lemmas read_simps = ReadSoln_def readSolnVals_def readSolnCols.simps readSolnRows.simps

lemmas build_simps = NewTableau_def NewDense_def

lemmas heap_simps = NewTableauHeapLastRow_def NewTableauHeap_def appendSlice_def sliceElems_def
  NewDense_def RawRowView_def Let_def

section \<open>Termination in exact arithmetic\<close>

text \<open>
  Background to the termination of the driver, about the model over the reals and not
  about every run of the \<^verbatim>\<open>float64\<close> code, which rounds each quotient and product.
  Take constraints and an objective with matching coefficient counts and non-negative
  right-hand sides, and read the linear program that the tableau encodes: maximise
  \<open>- ob \<cdot> x\<close> (the objective row is the objective as passed). If that program is
  bounded and non-degenerate, and no coordinate of a feasible point (slacks included)
  reaches \<^verbatim>\<open>math.MaxFloat64\<close>, the initial value of \<^verbatim>\<open>minq\<close>, then
  \<^verbatim>\<open>Solve\<close> returns, with no error, leaving a tableau that \<^verbatim>\<open>isSolved\<close>
  accepts. The last hypothesis is sufficient, not necessary.
\<close>

lemma Solve_terminates_exact:
  assumes match: "\<forall>c \<in> set cs. length (Coefficients c) = length ob"
    and feas: "\<forall>c \<in> set cs. 0 \<le> RightHandSide c"
    and bd: "lpBounded cs ob" and nd: "lpNonDegenerate cs ob" and bm: "lpBelowMax cs ob"
  shows "\<exists>t0 t'. NewTableau cs ob = Inr t0 \<and> Solve t0 = Some (t', None) \<and> isSolved t' = Inr True"
proof -
  let ?t = "newTableauOf cs ob"
  note s = newTableauOf_shape[OF match]
  note f = newTableauOf_feasible[OF match]
  have new: "NewTableau cs ob = Inr ?t"
    unfolding newTableauOf_def by (rule NewTableau_ok[OF match])
  have "boundedTableau ?t"
    using bd unfolding boundedTableau_def lpBounded_def f by simp
  moreover have "nonDegenerateTableau ?t"
    using nd s(2) unfolding nonDegenerateTableau_def lpNonDegenerate_def f s(4) by simp
  moreover have "belowMaxTableau ?t"
    using bm unfolding belowMaxTableau_def lpBelowMax_def f s(4) by simp
  ultimately obtain t' where "Solve ?t = Some (t', None)" "isSolved t' = Inr True"
    using Solve_terminates_inv[OF newTableauOf_inv[OF match feas nd]] by blast
  then show ?thesis using new by blast
qed

text \<open>The program of the case \<^verbatim>\<open>"basic lp"\<close> meets these hypotheses.\<close>

lemma Solve_terminates_exact_lp1:
  "\<exists>t0 t'. NewTableau lp1 [- 2, - 3] = Inr t0 \<and> Solve t0 = Some (t', None)
      \<and> isSolved t' = Inr True"
proof -
  have match: "\<forall>c \<in> set lp1. length (Coefficients c) = length [- 2, - 3 :: real]"
    and feas: "\<forall>c \<in> set lp1. 0 \<le> RightHandSide c"
    by (simp_all add: lp1_def)
  show ?thesis
    by (rule Solve_terminates_exact[OF match feas lp1_bounded lp1_nondegenerate lp1_below])
qed

section \<open>The properties\<close>

subsection \<open>C1: the end-to-end example\<close>

text \<open>
  C1, as amended. \<^verbatim>\<open>NewTableau\<close> stores the objective as it is passed, so the
  example maximising \<open>2x + 3y\<close> passes the coefficients \<open>[-2, -3]\<close>, as the tests of the
  repository do. Built from the constraints \<open>[2,1] \<le> 18\<close>, \<open>[6,5] \<le> 60\<close>,
  \<open>[2,5] \<le> 40\<close> and these coefficients, the tableau is the initial tableau of the
  tests, \<^verbatim>\<open>Solve\<close> returns no error and leaves the solved tableau of the tests, and the
  extraction loops of \<^verbatim>\<open>ReadSoln\<close> read \<open>x = 5\<close>, \<open>y = 6\<close> and the objective
  value \<open>28\<close> from it, exactly.
\<close>

theorem lp1_build_solve_extract:
  "NewTableau lp1 [- 2, - 3] = Inr lp1Initial
   \<and> Solve lp1Initial = Some (lp1Solved, None)
   \<and> readSolnVals lp1Solved = Inr ([5, 6], 28)"
proof -
  have a: "NewTableau lp1 [- 2, - 3] = Inr lp1Initial"
    by (simp add: build_simps lp1_def lp1Initial_def)
  have b: "Solve lp1Initial = Some (lp1Solved, None)"
    by (simp add: Solve.simps eval_simps lp1Initial_def lp1Solved_def)
  have c: "readSolnVals lp1Solved = Inr ([5, 6], 28)"
    by (simp add: read_simps eval_simps lp1Solved_def eval_nat_numeral)
  show ?thesis using a b c by simp
qed

text \<open>
  C1 as stated fails: with the coefficients \<open>[2, 3]\<close> the tableau is solved from the
  start, \<^verbatim>\<open>Solve\<close> does nothing, and \<^verbatim>\<open>ReadSoln\<close> panics in
  \<^verbatim>\<open>pivotIdxs\<close>, which reads column \<open>-1\<close>.
\<close>

theorem lp1_as_stated_counterexample:
  "buildSolveRead lp1 [2, 3] = Some (Inl ErrColAccess)
   \<and> buildSolveRead lp1 [2, 3] \<noteq> Some (Inr ([5, 6], 28))"
proof -
  have "NewTableau lp1 [2, 3] = Inr (lp1Initial\<lparr>Data := take 18 (Data lp1Initial) @ [2, 3, 0, 0, 0, 0]\<rparr>)"
    by (simp add: build_simps lp1_def lp1Initial_def)
  then have "buildSolveRead lp1 [2, 3] = Some (Inl ErrColAccess)"
    by (simp add: buildSolveRead_def Solve.simps read_simps eval_simps lp1Initial_def)
  then show ?thesis by simp
qed

subsection \<open>C2: the objective row of a new tableau\<close>

text \<open>
  C2, as amended. \<^verbatim>\<open>NewTableau\<close> appends to the slices of its caller:
  \<^verbatim>\<open>append(c.Coefficients, ...)\<close> writes the slack entries and the right-hand side
  of a constraint into the spare capacity of its backing array when there is room for
  them. When every constraint has as many coefficients as the objective, and for no
  constraint that write lands on the elements of the objective (the constraint is in
  another array, or its capacity has no room for the \<open>m + 1\<close> entries appended, or the
  entries written lie off the elements of the objective), \<^verbatim>\<open>NewTableau\<close> returns a
  tableau of \<open>m + 1\<close> rows and \<open>n + m + 1\<close> columns whose last row is the objective
  coefficients as passed, not negated, followed by \<open>m + 1\<close> zeros.
\<close>

theorem NewTableauHeap_objective_row:
  assumes ok: "\<forall>c \<in> set cs. sliceOk h (CoefficientsRef c)" and okOb: "sliceOk h ob"
    and match: "\<forall>c \<in> set cs. Len (CoefficientsRef c) = Len ob"
    and clear: "\<forall>c \<in> set cs. appendClearOf (CoefficientsRef c) (length cs + 1) ob"
  shows "\<exists>h' t. NewTableauHeap h cs ob = (h', Inr t)
           \<and> Rows t = int (length cs) + 1
           \<and> Cols t = int (Len ob) + int (length cs) + 1
           \<and> RawRowView t (Rows t - 1) = Inr (sliceElems h ob @ replicate (length cs + 1) 0)"
proof -
  let ?m = "length cs" and ?n = "Len ob"
  obtain h1 rest where r: "NewTableauRowsHeap h ?m ob 0 cs [] = (h1, Inr ([] @ rest))"
    "length rest = ?m * (?n + ?m + 1)" "sliceElems h1 ob = sliceElems h ob" "sliceOk h1 ob"
    using NewTableauRowsHeap_props[OF ok okOb match clear, of 0 "[]"] by blast
  obtain h2 lastRow where ap: "appendSlice h1 ob (replicate (?m + 1) 0) = (h2, lastRow)"
    by (cases "appendSlice h1 ob (replicate (?m + 1) 0)")
  have lastRow: "lastRow = sliceElems h ob @ replicate (?m + 1) 0"
    using appendSlice_length(2)[OF r(4) ap] r(3) by simp
  have ll: "length lastRow = ?n + ?m + 1"
    unfolding lastRow using length_sliceElems[OF okOb] by simp
  let ?t = "\<lparr>Rows = int ?m + 1, Cols = int ?n + int ?m + 1, Data = rest @ lastRow\<rparr>"
  have "(int ?m + 1) * (int ?n + int ?m + 1) = int (length (rest @ lastRow))"
    using r(2) ll by (simp add: algebra_simps)
  then have nd: "NewDense (int ?m + 1) (int ?n + int ?m + 1) (rest @ lastRow) = Inr ?t"
    by (simp add: NewDense_def del: of_nat_add of_nat_mult length_append)
  have new: "NewTableauHeap h cs ob = (h2, Inr ?t)"
    using r(1) ap nd by (simp add: NewTableauHeap_def)
  have n1: "nat (int ?m * (int ?n + int ?m + 1)) = length rest"
    unfolding r(2) by (metis nat_int of_nat_1 of_nat_add of_nat_mult)
  have n2: "nat (int ?n + int ?m + 1) = length lastRow" using ll by simp
  have "RawRowView ?t (Rows ?t - 1) = Inr lastRow"
    by (simp add: RawRowView_def n1 n2 del: of_nat_add of_nat_mult)
  then show ?thesis using new lastRow by (intro exI[of _ h2] exI[of _ ?t]) simp
qed

theorem NewTableauHeap_objective_row_witness:
  "list_all (\<lambda>c. sliceOk testHeap (CoefficientsRef c)) lp1Refs \<and> sliceOk testHeap objectiveRef
   \<and> list_all (\<lambda>c. Len (CoefficientsRef c) = Len objectiveRef) lp1Refs
   \<and> list_all (\<lambda>c. appendClearOf (CoefficientsRef c) (length lp1Refs + 1) objectiveRef) lp1Refs
   \<and> (\<exists>h' t. NewTableauHeap testHeap lp1Refs objectiveRef = (h', Inr t)
         \<and> Rows t = 4 \<and> Cols t = 6
         \<and> RawRowView t (Rows t - 1) = Inr [- 2, - 3, 0, 0, 0, 0])"
proof -
  have ok: "\<forall>c \<in> set lp1Refs. sliceOk testHeap (CoefficientsRef c)"
    by (simp add: lp1Refs_def sliceOk_def testHeap_def)
  have okOb: "sliceOk testHeap objectiveRef"
    by (simp add: objectiveRef_def sliceOk_def testHeap_def)
  have match: "\<forall>c \<in> set lp1Refs. Len (CoefficientsRef c) = Len objectiveRef"
    by (simp add: lp1Refs_def objectiveRef_def)
  have clear: "\<forall>c \<in> set lp1Refs. appendClearOf (CoefficientsRef c) (length lp1Refs + 1) objectiveRef"
    by (simp add: lp1Refs_def objectiveRef_def appendClearOf_def)
  have e: "sliceElems testHeap objectiveRef = [- 2, - 3]" "length lp1Refs = 3" "Len objectiveRef = 2"
    by (simp_all add: sliceElems_def testHeap_def objectiveRef_def lp1Refs_def)
  show ?thesis
    using ok okOb match clear NewTableauHeap_objective_row[OF ok okOb match clear]
    by (simp add: list_all_iff e eval_nat_numeral)
qed

text \<open>
  C2 as stated fails on the case \<^verbatim>\<open>"basic lp"\<close> of \<^verbatim>\<open>TestNewTableau\<close>, whose
  slices are literals: the objective \<open>[-2, -3]\<close> gives the last row
  \<open>[-2, -3, 0, 0, 0, 0]\<close>, not its negation.
\<close>

theorem NewTableauHeap_negated_row_counterexample:
  "NewTableauHeapLastRow testHeap lp1Refs objectiveRef = Inr [- 2, - 3, 0, 0, 0, 0]
   \<and> NewTableauHeapLastRow testHeap lp1Refs objectiveRef
       \<noteq> Inr (map uminus (sliceElems testHeap objectiveRef) @ replicate (length lp1Refs + 1) 0)"
  by (simp add: heap_simps testHeap_def lp1Refs_def objectiveRef_def)

text \<open>
  The condition on the appends is needed. With the constraint \<^verbatim>\<open>base[0:2]\<close>, of
  capacity \<open>6\<close>, and the objective \<^verbatim>\<open>base[2:4]\<close> of one array
  \<^verbatim>\<open>base := []float64{2, 1, -2, -3, 0, 0}\<close>, the append for the constraint writes the
  slack entry \<open>1\<close> and the right-hand side \<open>18\<close> over the objective before the
  objective is read, and the last row is \<open>[1, 18, 0, 0]\<close>.
\<close>

lemma NewTableauHeap_overwritten_objective:
  "sliceElems aliasHeap aliasObjective = [- 2, - 3]
   \<and> NewTableauHeapLastRow aliasHeap aliasConstraints aliasObjective = Inr [1, 18, 0, 0]"
  by (simp add: heap_simps aliasHeap_def aliasConstraints_def aliasObjective_def)

subsection \<open>C3: reading the solution of an optimal tableau\<close>

text \<open>
  On a tableau that \<^verbatim>\<open>isSolved\<close> accepts and that has a constraint row,
  \<^verbatim>\<open>ReadSoln\<close> goes on to \<^verbatim>\<open>isUnbounded\<close>; \<^verbatim>\<open>negMinIdx\<close> finds no
  negative coefficient and returns \<open>-1\<close>, and the row loop of \<^verbatim>\<open>pivotIdxs\<close>
  reads column \<open>-1\<close> of row \<open>0\<close>, which panics.
\<close>

lemma negMinIdx_no_negative:
  assumes "\<forall>v \<in> set vec. 0 \<le> v"
  shows "negMinIdx vec = Inr (- 1)"
proof -
  obtain mi mv where mi: "negMinIdx vec = Inr mi"
    and inv: "negMinInv vec (max 0 (int (length vec) - 1)) mi mv"
    using negMinIdx_inv[of vec] by blast
  have "\<not> (0 \<le> mi \<and> mi < max 0 (int (length vec) - 1) \<and> vec ! nat mi < 0)"
  proof
    assume h: "0 \<le> mi \<and> mi < max 0 (int (length vec) - 1) \<and> vec ! nat mi < 0"
    then have "nat mi < length vec" by (auto simp: max_def split: if_splits)
    then have "vec ! nat mi \<in> set vec" by simp
    then have "0 \<le> vec ! nat mi" using assms by blast
    then show False using h by simp
  qed
  then have "mi = - 1" using inv unfolding negMinInv_def by auto
  then show ?thesis using mi by simp
qed

lemma ReadSoln_solved_panics:
  assumes wf: "wfTableau t" and rows: "2 \<le> Rows t" and solved: "isSolved t = Inr True"
  shows "ReadSoln t = Inl ErrColAccess"
proof -
  have i: "0 \<le> Rows t - 1" "Rows t - 1 < Rows t" using rows by simp_all
  have "isSolvedLoop (rowOf t (Rows t - 1))"
    using solved by (simp add: isSolved_def Dims_def RawRowView_rowOf[OF i])
  then have "negMinIdx (rowOf t (Rows t - 1)) = Inr (- 1)"
    by (simp add: isSolvedLoop_iff negMinIdx_no_negative)
  moreover have "pivotRowLoop t (Rows t) (Cols t) (- 1) 0 (- 1) MaxFloat64 = Inl ErrColAccess"
    using rows by (subst pivotRowLoop.simps) (simp add: At_def)
  ultimately have "pivotIdxs t = Inl ErrColAccess"
    by (simp add: pivotIdxs_def Dims_def RowView_def RawRowView_rowOf[OF i])
  then show ?thesis using solved by (simp add: ReadSoln_def isUnbounded_def)
qed

text \<open>
  C3, at the solved tableau of the case \<^verbatim>\<open>"basic lp"\<close> of \<^verbatim>\<open>TestReadSoln\<close>:
  the tableau is optimal and has three constraint rows, and \<^verbatim>\<open>ReadSoln\<close> panics
  where the claim, and the test, expect the assignment \<open>[5, 6]\<close> and the value \<open>28\<close>.
\<close>

theorem ReadSoln_optimal_panics:
  "isSolved lp1Solved = Inr True \<and> ReadSoln lp1Solved = Inl ErrColAccess"
proof -
  have a: "isSolved lp1Solved = Inr True"
    by (simp add: eval_simps lp1Solved_def)
  have "wfTableau lp1Solved" "2 \<le> Rows lp1Solved"
    by (simp_all add: wfTableau_def lp1Solved_def)
  then show ?thesis using a ReadSoln_solved_panics by simp
qed

subsection \<open>C4: reading the solution of an unsolved or unbounded tableau\<close>

text \<open>
  \<^verbatim>\<open>ReadSoln\<close> tests \<^verbatim>\<open>isSolved\<close> first, so every tableau with a negative entry
  in its objective row is reported as unsolved, the unbounded ones too.
\<close>

lemma ReadSoln_not_solved: "isSolved t = Inr False \<Longrightarrow> ReadSoln t = Inl ERR_UNSOLVED"
  by (simp add: ReadSoln_def)

text \<open>
  C4, at the tableau of the case \<^verbatim>\<open>"unbounded"\<close> of \<^verbatim>\<open>TestReadSoln\<close>: the
  tableau is unbounded (\<^verbatim>\<open>isUnbounded\<close> holds: the pivot column \<open>1\<close> has no row with
  a positive ratio), and \<^verbatim>\<open>ReadSoln\<close> returns \<^verbatim>\<open>ERR_UNSOLVED\<close> where the claim,
  and the test, expect \<^verbatim>\<open>ERR_UNBOUNDED\<close>.
\<close>

theorem ReadSoln_unbounded_reports_unsolved:
  "pivotIdxs unboundedTableau = Inr (- 1, 1)
   \<and> isUnbounded unboundedTableau = Inr True
   \<and> ReadSoln unboundedTableau = Inl ERR_UNSOLVED"
proof -
  have a: "pivotIdxs unboundedTableau = Inr (- 1, 1)"
    by (simp add: eval_simps unboundedTableau_def)
  have b: "isSolved unboundedTableau = Inr False"
    by (simp add: eval_simps unboundedTableau_def)
  show ?thesis using a ReadSoln_not_solved[OF b] by (simp add: isUnbounded_def)
qed

subsection \<open>C5: the choice of the pivot\<close>

text \<open>
  \<^verbatim>\<open>pivotIdxs\<close> starts its running minimum \<^verbatim>\<open>minq\<close> at \<^verbatim>\<open>math.MaxFloat64\<close>
  and takes a row only when \<^verbatim>\<open>q < minq && q > 0\<close>, so a row whose ratio is
  \<^verbatim>\<open>math.MaxFloat64\<close> is never taken (lemma \<open>pivotIdxs_props\<close> says, in exact
  arithmetic, what \<^verbatim>\<open>pivotIdxs\<close> returns on every tableau).

  C5, at the tableau with the constraint row \<open>[1 | math.MaxFloat64]\<close> and the
  objective row \<open>[-1 | 0]\<close>: the pivot column is \<open>0\<close>, row \<open>0\<close> has the non-zero
  entry \<open>1\<close> there and the strictly positive ratio \<^verbatim>\<open>math.MaxFloat64 / 1\<close>, so the
  claim says that the pivot row is \<open>0\<close>. \<^verbatim>\<open>pivotIdxs\<close> returns the pivot row \<open>-1\<close>,
  and \<^verbatim>\<open>isUnbounded\<close> reports the tableau as unbounded. Every number involved is a
  \<^verbatim>\<open>float64\<close> and the division by \<open>1\<close> does not round, so the \<^verbatim>\<open>float64\<close> code
  computes what the model computes.
\<close>

theorem pivotIdxs_misses_sentinel_ratio:
  "pivotIdxs sentinelTableau = Inr (- 1, 0)
   \<and> At sentinelTableau 0 0 = Inr 1
   \<and> At sentinelTableau 0 1 = Inr MaxFloat64
   \<and> 0 < MaxFloat64 / 1
   \<and> isUnbounded sentinelTableau = Inr True"
  by (simp add: eval_simps sentinelTableau_def)

subsection \<open>C6: the pivot makes a unit column\<close>

text \<open>
  C6. For a tableau and a pair \<open>(r, c)\<close> whose entry is not zero,
  \<^verbatim>\<open>scalePivotRow\<close> followed by \<^verbatim>\<open>elimRows\<close> succeeds and leaves \<open>1\<close> at
  \<open>(r, c)\<close> and \<open>0\<close> at \<open>(i, c)\<close> for every other row \<open>i\<close>.
\<close>

theorem pivot_unit_column:
  assumes wf: "wfTableau t" and piv: "At t r c = Inr v" and nz: "v \<noteq> 0"
  shows "\<exists>t1 t2. scalePivotRow t r c = Inr t1 \<and> elimRows t1 r c = Inr t2
           \<and> At t2 r c = Inr 1
           \<and> (\<forall>i. 0 \<le> i \<and> i < Rows t \<and> i \<noteq> r \<longrightarrow> At t2 i c = Inr 0)"
proof -
  note rc = At_InrD[OF piv]
  have pe: "entry t r c \<noteq> 0" using rc(5) nz by simp
  obtain t1 where t1: "scalePivotRow t r c = Inr t1" "wfTableau t1" "Rows t1 = Rows t"
    "Cols t1 = Cols t"
    and e1: "\<And>i j. 0 \<le> i \<Longrightarrow> i < Rows t \<Longrightarrow> 0 \<le> j \<Longrightarrow> j < Cols t \<Longrightarrow>
        entry t1 i j = (if i = r then entry t r j * (1 / entry t r c) else entry t i j)"
    using scalePivotRow_props[OF wf rc(1-4) pe] by blast
  have r1: "r < Rows t1" and c1: "c < Cols t1" using t1 rc by simp_all
  obtain t2 where t2: "elimRows t1 r c = Inr t2" "wfTableau t2" "Rows t2 = Rows t1"
    "Cols t2 = Cols t1"
    and e2: "\<And>k j. 0 \<le> k \<Longrightarrow> k < Rows t1 \<Longrightarrow> 0 \<le> j \<Longrightarrow> j < Cols t1 \<Longrightarrow>
       entry t2 k j = (if k = r then entry t1 k j
                       else entry t1 k j + entry t1 r j * (- entry t1 k c))"
    using elimRows_props[OF t1(2) rc(1) r1 rc(3) c1] by blast
  have one: "entry t1 r c = 1" using e1[OF rc(1-4)] pe by simp
  have "entry t2 r c = 1" using e2[OF rc(1) r1 rc(3) c1] one by simp
  then have a: "At t2 r c = Inr 1"
    using At_entry[of r t2 c] rc t2 t1 by simp
  have b: "At t2 i c = Inr 0" if "0 \<le> i \<and> i < Rows t \<and> i \<noteq> r" for i
  proof -
    have "entry t2 i c = entry t1 i c + entry t1 r c * (- entry t1 i c)"
      using e2[of i c] that rc c1 t1 by simp
    then have "entry t2 i c = 0" using one by simp
    then show ?thesis using At_entry[of i t2 c] that rc t2 t1 by simp
  qed
  show ?thesis using t1(1) t2(1) a b by blast
qed

theorem pivot_unit_column_witness:
  "wfTableau smallTableau \<and> At smallTableau 0 0 = Inr 2 \<and> (2::real) \<noteq> 0
   \<and> (\<exists>t1 t2. scalePivotRow smallTableau 0 0 = Inr t1 \<and> elimRows t1 0 0 = Inr t2
           \<and> At t2 0 0 = Inr 1
           \<and> (\<forall>i. 0 \<le> i \<and> i < Rows smallTableau \<and> i \<noteq> 0 \<longrightarrow> At t2 i 0 = Inr 0))"
proof -
  have wf: "wfTableau smallTableau" by (simp add: wfTableau_def smallTableau_def)
  have at: "At smallTableau 0 0 = Inr 2" by (simp add: At_def smallTableau_def)
  have nz: "(2::real) \<noteq> 0" by simp
  show ?thesis using wf at nz pivot_unit_column[OF wf at nz] by blast
qed

subsection \<open>C7: the optimality test\<close>

text \<open>
  \<^verbatim>\<open>isSolved\<close> ranges over the whole last row, the right-hand-side column
  included (lemma \<open>isSolved_whole_row\<close>), while \<^verbatim>\<open>negMinIdx\<close> leaves that
  column out.

  C7, at a tableau whose objective row \<open>[1, 0 | -3]\<close> is negative in the
  right-hand-side column only: the claim says \<^verbatim>\<open>isSolved\<close> returns true,
  \<^verbatim>\<open>isSolved\<close> returns false. \<^verbatim>\<open>negMinIdx\<close> finds no pivot column there, and
  \<^verbatim>\<open>Solve\<close> panics on the column index \<open>-1\<close>.
\<close>

theorem isSolved_scans_rhs:
  "RawRowView negativeRhsTableau 1 = Inr [1, 0, - 3]
   \<and> isSolved negativeRhsTableau = Inr False
   \<and> negMinIdx [1, 0, - 3] = Inr (- 1)
   \<and> Solve negativeRhsTableau = Some (negativeRhsTableau, Some ErrColAccess)"
  by (simp add: Solve.simps eval_simps negativeRhsTableau_def)

subsection \<open>C8: termination of the driver\<close>

text \<open>
  The program \<open>x \<le> math.MaxFloat64\<close> has a non-negative right-hand side, is bounded
  whether the objective \<open>[-1]\<close> is read as passed or negated, and is non-degenerate.
\<close>

lemma sentinelLP_bounded_nondegenerate:
  "list_all (\<lambda>c. 0 \<le> RightHandSide c) sentinelLP
   \<and> lpBounded sentinelLP [- 1] \<and> lpBounded sentinelLP [1] \<and> lpNonDegenerate sentinelLP [- 1]"
proof -
  have m: "(0::real) < MaxFloat64" by (simp add: MaxFloat64_def)
  have a: "list_all (\<lambda>c. 0 \<le> RightHandSide c) sentinelLP"
    using m by (simp add: sentinelLP_def)
  have b: "lpBounded sentinelLP [- 1]"
    unfolding sentinelLP_def using one_constraint_bounded[of 1 MaxFloat64] m by simp
  have c: "lpBounded sentinelLP [1]"
    unfolding sentinelLP_def by (rule one_constraint_bounded_neg) simp
  have d: "lpNonDegenerate sentinelLP [- 1]"
    unfolding sentinelLP_def by (rule one_constraint_nondegenerate) (use m in simp)
  show ?thesis using a b c d by simp
qed

text \<open>
  One pivot on row \<open>0\<close>, column \<open>0\<close> of its tableau gives a tableau that
  \<^verbatim>\<open>isSolved\<close> accepts: this is the result the simplex method reaches, with
  \<open>x = math.MaxFloat64\<close>.
\<close>

lemma sentinelInitial_pivot_solves:
  "(case scalePivotRow sentinelInitial 0 0 of Inl e \<Rightarrow> Inl e | Inr t \<Rightarrow> elimRows t 0 0)
     = Inr sentinelPivoted
   \<and> isSolved sentinelPivoted = Inr True"
  by (simp add: eval_simps sentinelInitial_def sentinelPivoted_def)

text \<open>
  C8, at the program \<open>x \<le> math.MaxFloat64\<close> with the objective \<open>[-1]\<close>, which is
  bounded and non-degenerate and whose all-slack basis is feasible (lemma
  \<open>sentinelLP_bounded_nondegenerate\<close>): the claim says that \<^verbatim>\<open>Solve\<close> returns no
  error and leaves a tableau that \<^verbatim>\<open>isSolved\<close> accepts. \<^verbatim>\<open>Solve\<close> returns
  \<^verbatim>\<open>ERR_UNBOUNDED\<close> without a pivot and leaves the tableau unsolved: the only ratio,
  \<^verbatim>\<open>math.MaxFloat64\<close>, is not below the initial \<^verbatim>\<open>minq\<close>, so \<^verbatim>\<open>pivotIdxs\<close>
  finds no pivot row. This is the defect of the choice of the pivot row, seen from
  \<^verbatim>\<open>Solve\<close>. Every number involved is a \<^verbatim>\<open>float64\<close> and no operation rounds,
  so the \<^verbatim>\<open>float64\<close> code computes what the model computes.
\<close>

theorem Solve_sentinel_reports_unbounded:
  "NewTableau sentinelLP [- 1] = Inr sentinelInitial
   \<and> isSolved sentinelInitial = Inr False
   \<and> pivotIdxs sentinelInitial = Inr (- 1, 0)
   \<and> Solve sentinelInitial = Some (sentinelInitial, Some ERR_UNBOUNDED)"
proof -
  have a: "NewTableau sentinelLP [- 1] = Inr sentinelInitial"
    by (simp add: build_simps sentinelLP_def sentinelInitial_def)
  have b: "isSolved sentinelInitial = Inr False"
    by (simp add: eval_simps sentinelInitial_def)
  have c: "pivotIdxs sentinelInitial = Inr (- 1, 0)"
    by (simp add: eval_simps sentinelInitial_def)
  have d: "Solve sentinelInitial = Some (sentinelInitial, Some ERR_UNBOUNDED)"
    by (simp add: Solve.simps eval_simps sentinelInitial_def)
  show ?thesis using a b c d by simp
qed

subsection \<open>C9: the check of the coefficient counts\<close>

text \<open>
  C9. \<^verbatim>\<open>NewTableau\<close> fails with the error of unequal coefficient vectors whenever
  some constraint has a coefficient count other than the objective's, and returns a
  tableau when every constraint has the objective's coefficient count.
\<close>

theorem NewTableau_dimension_check:
  "((\<exists>c \<in> set cs. length (Coefficients c) \<noteq> length ob) \<longrightarrow>
      NewTableau cs ob = Inl ErrCoefficientLength) \<and>
   ((\<forall>c \<in> set cs. length (Coefficients c) = length ob) \<longrightarrow>
      (\<exists>t. NewTableau cs ob = Inr t))"
  using NewTableauRows_mismatch[of cs ob "length cs" 0 "[]"] NewTableau_ok[of cs ob]
  by (auto simp: NewTableau_def)

theorem NewTableau_dimension_check_witness:
  "(\<exists>c \<in> set [\<lparr>Coefficients = [2], RightHandSide = 18\<rparr>].
      length (Coefficients c) \<noteq> length [- 2, - 3 :: real])
   \<and> NewTableau [\<lparr>Coefficients = [2], RightHandSide = 18\<rparr>] [- 2, - 3] = Inl ErrCoefficientLength
   \<and> list_all (\<lambda>c. length (Coefficients c) = length [- 2, - 3 :: real]) lp1
   \<and> (\<exists>t. NewTableau lp1 [- 2, - 3] = Inr t)"
  using NewTableau_dimension_check[of "[\<lparr>Coefficients = [2], RightHandSide = 18\<rparr>]" "[- 2, - 3]"]
    NewTableau_dimension_check[of lp1 "[- 2, - 3]"]
  by (simp add: lp1_def)

subsection \<open>C10: solving a solved tableau\<close>

text \<open>
  C10. On a tableau that \<^verbatim>\<open>isSolved\<close> accepts, \<^verbatim>\<open>Solve\<close> returns no error and
  leaves the tableau as it is.
\<close>

theorem Solve_solved_unchanged: "isSolved t = Inr True \<Longrightarrow> Solve t = Some (t, None)"
  by (subst Solve.simps) simp

theorem Solve_solved_unchanged_witness:
  "isSolved lp1Solved = Inr True \<and> Solve lp1Solved = Some (lp1Solved, None)"
proof -
  have a: "isSolved lp1Solved = Inr True" by (simp add: eval_simps lp1Solved_def)
  show ?thesis using a Solve_solved_unchanged[OF a] by simp
qed

end
